theory Spec2Isabelle
  imports Complex_Main "HOL-Library.Word"
begin

section \<open>The paths connector of the OpenLR decoder (openlr/paths_connector.cpp)\<close>

text \<open>
  The theory embeds \<^verbatim>\<open>openlr/paths_connector.cpp\<close>: the overlap test of two edge
  sequences, the validation of a path's length, the bounded shortest-path search and the
  loop that connects the candidates of consecutive reference points.

  Conventions of the embedding:
  \<^item> \<^verbatim>\<open>uint32_t\<close> is \<open>32 word\<close>; its arithmetic wraps around.
  \<^item> \<^verbatim>\<open>double\<close> is idealised as \<open>real\<close>: sums, differences and quotients are exact,
    where the code rounds each of them to the nearest \<^verbatim>\<open>double\<close>. The two agree on whole
    numbers below \<open>2 ^ 53\<close>; what depends on the rounding is not stated on this embedding.
    The conversion of a \<^verbatim>\<open>double\<close> to \<^verbatim>\<open>uint32_t\<close> drops the fraction, towards zero;
    for a value outside the range of \<^verbatim>\<open>uint32_t\<close> C++ leaves the result open, and the
    embedding takes the low 32 bits of the integral part.
  \<^item> A \<^verbatim>\<open>std::vector\<close> is a list, a \<^verbatim>\<open>std::map\<close> a partial function.
  \<^item> An assertion that fails, a read outside a vector and a loop that never ends are
    values of the type \<open>error\<close>; a function that can meet one returns \<open>error + 'a\<close>.
  \<^item> The graph, the edges and the helpers are declared in files outside this unit
    (\<^verbatim>\<open>Graph\<close>, \<^verbatim>\<open>Graph::Edge\<close>, \<^verbatim>\<open>EdgeLength\<close>, \<^verbatim>\<open>v2::Stats\<close>): they are
    the fields of the record \<open>Graph\<close> below, parameters of every function that uses them.
    Edges are any linearly ordered type (\<^verbatim>\<open>Graph::Edge\<close> has \<^verbatim>\<open>operator<\<close>).
\<close>

subsection \<open>Data\<close>

type_synonym uint32_t = "32 word"

datatype error = AssertionFailed | OutOfRange | NoReturn

record ('e, 'j) Graph =
  GetEndJunction :: "'e \<Rightarrow> 'j"
  GetOutgoingEdges :: "'j \<Rightarrow> 'e list"
  EdgeLength :: "'e \<Rightarrow> real"
  IsFake :: "'e \<Rightarrow> bool"
  DefaultEdge :: "'e"

record 'f LocationReferencePoint =
  m_distanceToNextPoint :: uint32_t
  m_functionalRoadClass :: 'f

record Stats =
  m_noShortestPathFound :: nat

text \<open>The conversion \<^verbatim>\<open>double\<close> to \<^verbatim>\<open>uint32_t\<close>.\<close>

definition to_uint32 :: "real \<Rightarrow> uint32_t" where
  "to_uint32 x = word_of_int (if x < 0 then \<lceil>x\<rceil> else \<lfloor>x\<rfloor>)"

subsection \<open>Overlap of two edge sequences\<close>

text \<open>
  \<^verbatim>\<open>std::set_intersection\<close> into a \<^verbatim>\<open>CounterIterator\<close>: the number of elements the
  merge of two sorted ranges writes.
\<close>

fun set_intersection_count :: "'e::linorder list \<Rightarrow> 'e list \<Rightarrow> nat" where
  "set_intersection_count [] ys = 0"
| "set_intersection_count (x # xs) [] = 0"
| "set_intersection_count (x # xs) (y # ys) =
     (if x < y then set_intersection_count xs (y # ys)
      else if y < x then set_intersection_count (x # xs) ys
      else Suc (set_intersection_count xs ys))"

definition IntersectionLen :: "'e::linorder list \<Rightarrow> 'e list \<Rightarrow> nat" where
  "IntersectionLen a b = set_intersection_count (sort a) (sort b)"

text \<open>
  \<^verbatim>\<open>PrefEqualsSuff\<close> asserts \<open>len \<le> a.size()\<close> and \<open>len \<le> b.size()\<close>, then compares
  the last \<open>len\<close> elements of \<open>a\<close> with the first \<open>len\<close> elements of \<open>b\<close>.
\<close>

definition PrefEqualsSuff :: "'e list \<Rightarrow> 'e list \<Rightarrow> nat \<Rightarrow> error + bool" where
  "PrefEqualsSuff a b len =
     (if \<not> len \<le> length a then Inl AssertionFailed
      else if \<not> len \<le> length b then Inl AssertionFailed
      else Inr (drop (length a - len) a = take len b))"

text \<open>
  Sizes are natural numbers and \<^verbatim>\<open>int32_t\<close> values integers: the cast of the size is
  guarded by \<^verbatim>\<open>base::checked_cast\<close> (base/checked_cast.hpp, outside this unit), and
  a sequence of \<open>2 ^ 31\<close> edges or more is outside the model.
\<close>

definition PathOverlappingLen :: "'e::linorder list \<Rightarrow> 'e list \<Rightarrow> error + int" where
  "PathOverlappingLen a b =
     (let len = IntersectionLen a b in
      case PrefEqualsSuff a b len of
        Inl err \<Rightarrow> Inl err
      | Inr eq \<Rightarrow> if eq then Inr (int len) else Inr (- 1))"

subsection \<open>Validation of a path's length\<close>

text \<open>
  \<^verbatim>\<open>AbsDifference\<close> (base/math.hpp, outside this unit) is the absolute value of the
  difference. The quotient is a \<^verbatim>\<open>double\<close> division: for the divisor 0 it is a NaN when
  the dividend is 0 too, which no comparison finds greater than the tolerance, and
  infinite otherwise, which is greater than every tolerance. The sum of the lengths and
  the quotient are exact here and rounded in the code: the definition gives the code's
  answer where both are exact in \<^verbatim>\<open>double\<close>, as in the runs below, whose lengths are
  whole numbers and whose deviation is 0, and need not at a deviation within a rounding
  error of the tolerance.
\<close>

definition AbsDifference :: "real \<Rightarrow> real \<Rightarrow> real" where
  "AbsDifference a b = (if a > b then a - b else b - a)"

definition ValidatePath ::
  "('e, 'j) Graph \<Rightarrow> 'e list \<Rightarrow> uint32_t \<Rightarrow> real \<Rightarrow> bool" where
  "ValidatePath g path distanceToNextPoint pathLengthTolerance =
     (let pathLen = foldl (\<lambda>acc e. acc + EdgeLength g e) 0 path in
      if distanceToNextPoint = 0 then pathLen = 0
      else
        let pathDiffPercent =
              AbsDifference (real (unat distanceToNextPoint)) pathLen
                / real (unat distanceToNextPoint)
        in if pathDiffPercent > pathLengthTolerance then False else True)"

subsection \<open>The shortest-path search\<close>

record 'e State =
  m_edge :: 'e
  m_score :: uint32_t

text \<open>\<^verbatim>\<open>State::operator>\<close>: the lexicographic order of (score, edge).\<close>

definition operator_gt :: "'e::linorder State \<Rightarrow> 'e State \<Rightarrow> bool" where
  "operator_gt a b =
     (m_score a > m_score b \<or> (m_score a = m_score b \<and> m_edge a > m_edge b))"

text \<open>
  The \<^verbatim>\<open>std::priority_queue\<close> with \<^verbatim>\<open>greater<State>\<close> is the list of its entries:
  \<open>q_top\<close> is the entry no other entry is below, \<open>q_pop\<close> removes it.
\<close>

fun q_top :: "'e::linorder State list \<Rightarrow> 'e State" where
  "q_top [] = undefined"
| "q_top [x] = x"
| "q_top (x # y # ys) = (let m = q_top (y # ys) in if operator_gt x m then m else x)"

definition q_pop :: "'e::linorder State list \<Rightarrow> 'e State list" where
  "q_pop q = remove1 (q_top q) q"

definition q_emplace :: "'e State list \<Rightarrow> 'e \<Rightarrow> uint32_t \<Rightarrow> 'e State list" where
  "q_emplace q e s = \<lparr>m_edge = e, m_score = s\<rparr> # q"

definition kLengthToleranceM :: uint32_t where
  "kLengthToleranceM = 10"

type_synonym 'e search =
  "'e State list \<times> ('e \<rightharpoonup> uint32_t) \<times> ('e \<rightharpoonup> 'e)"

text \<open>
  The body of the loop over the outgoing edges of \<open>u\<close>, for one edge \<open>e\<close>. The sum
  \<^verbatim>\<open>us + EdgeLength(e)\<close> is a \<^verbatim>\<open>double\<close>, rounded in the code and exact here; the two
  agree where the length is a whole number.
\<close>

definition relax ::
  "('e, 'j) Graph \<Rightarrow> 'e \<Rightarrow> uint32_t \<Rightarrow> 'e \<Rightarrow> 'e search \<Rightarrow> 'e search" where
  "relax g u us e st =
     (case st of (q, scores, links) \<Rightarrow>
        let eScore = real (unat us) + EdgeLength g e in
        if (case scores e of None \<Rightarrow> True | Some s \<Rightarrow> real (unat s) > eScore)
        then (q_emplace q e (to_uint32 eScore), scores(e \<mapsto> to_uint32 eScore), links(e \<mapsto> u))
        else (q, scores, links))"

text \<open>
  The reconstruction \<^verbatim>\<open>for (auto e = u; e != from; e = links[e]) path.push_back(e)\<close>.
  \<^verbatim>\<open>links[e]\<close> of an edge without a link is a default-constructed edge. The loop
  need not end, so it is a partial function: \<open>None\<close> is a run that never returns.
\<close>

definition links_at :: "('e \<rightharpoonup> 'e) \<Rightarrow> 'e \<Rightarrow> 'e \<Rightarrow> 'e" where
  "links_at links dflt e = (case links e of None \<Rightarrow> dflt | Some p \<Rightarrow> p)"

partial_function (option) walk_links ::
  "('e \<rightharpoonup> 'e) \<Rightarrow> 'e \<Rightarrow> 'e \<Rightarrow> 'e \<Rightarrow> 'e list \<Rightarrow> 'e list option" where
  "walk_links links dflt from e path =
     (if e \<noteq> from
      then walk_links links dflt from (links_at links dflt e) (path @ [e])
      else Some path)"

text \<open>
  The loop \<^verbatim>\<open>while (!q.empty())\<close>. \<^verbatim>\<open>scores[u]\<close> of an edge without a score
  inserts the score 0.
\<close>

partial_function (option) dijkstra ::
  "('e::linorder, 'j) Graph \<Rightarrow> 'e \<Rightarrow> 'e \<Rightarrow> uint32_t \<Rightarrow> 'e list \<Rightarrow> 'e search
     \<Rightarrow> (bool \<times> 'e list) option" where
  "dijkstra g from to maxPathLength path st =
     (case st of (q, scores, links) \<Rightarrow>
        if q = [] then Some (False, path)
        else
          let state = q_top q; q1 = q_pop q; u = m_edge state; us = m_score state in
          if us > maxPathLength + kLengthToleranceM
          then dijkstra g from to maxPathLength path (q1, scores, links)
          else
            let su = (case scores u of None \<Rightarrow> 0 | Some s \<Rightarrow> s);
                scores1 = scores(u \<mapsto> su)
            in
            if us > su
            then dijkstra g from to maxPathLength path (q1, scores1, links)
            else if u = to
            then map_option (\<lambda>p. (True, rev (p @ [from])))
                   (walk_links links (DefaultEdge g) from u path)
            else dijkstra g from to maxPathLength path
                   (fold (relax g u us) (GetOutgoingEdges g (GetEndJunction g u))
                      (q1, scores1, links)))"

text \<open>
  \<^verbatim>\<open>FindShortestPath\<close>: the result is the returned flag and the vector \<open>path\<close> after
  the call. The argument \<open>frc\<close> is not read.
\<close>

definition FindShortestPath ::
  "('e::linorder, 'j) Graph \<Rightarrow> 'e \<Rightarrow> 'e \<Rightarrow> 'f \<Rightarrow> uint32_t \<Rightarrow> 'e list
     \<Rightarrow> error + (bool \<times> 'e list)" where
  "FindShortestPath g from to frc maxPathLength path =
     (case dijkstra g from to maxPathLength path
             (q_emplace [] from 0, [from \<mapsto> 0], Map.empty) of
        None \<Rightarrow> Inl NoReturn
      | Some r \<Rightarrow> Inr r)"

subsection \<open>Connecting two candidate lines\<close>

text \<open>
  The result is the returned flag and \<open>resultPath\<close> after the call. \<^verbatim>\<open>from.back()\<close>
  of an empty vector is a read outside the vector.
\<close>

definition ConnectAdjacentCandidateLines ::
  "('e::linorder, 'j) Graph \<Rightarrow> 'e list \<Rightarrow> 'e list \<Rightarrow> 'f \<Rightarrow> uint32_t \<Rightarrow> 'e list
     \<Rightarrow> error + (bool \<times> 'e list)" where
  "ConnectAdjacentCandidateLines g from to frc distanceToNextPoint resultPath =
     (if to = [] then Inl AssertionFailed
      else
        case PathOverlappingLen from to of
          Inl err \<Rightarrow> Inl err
        | Inr skip \<Rightarrow>
            if skip \<noteq> 0
            then (if skip = - 1 then Inr (False, resultPath)
                  else Inr (True, resultPath @ from @ drop (nat skip) to))
            else if from = [] then Inl OutOfRange
            else if \<not> last from \<noteq> hd to then Inl AssertionFailed
            else
              (case FindShortestPath g (last from) (hd to) frc distanceToNextPoint [] of
                 Inl err \<Rightarrow> Inl err
               | Inr (found, shortestPath) \<Rightarrow>
                   if \<not> found then Inr (False, resultPath)
                   else Inr (found, resultPath @ butlast from @ shortestPath @ tl to)))"

subsection \<open>Connecting the candidates of all reference points\<close>

text \<open>
  The state of the two nested loops over the candidates of one segment:
  \<open>found\<close>, \<open>resultPathPart\<close> and \<open>fakePath\<close>. Both loops stop as soon as \<open>found\<close> holds.
\<close>

type_synonym 'e attempt = "bool \<times> 'e list \<times> 'e list"

fun toLoop ::
  "('e::linorder, 'j) Graph \<Rightarrow> real \<Rightarrow> 'f \<Rightarrow> uint32_t \<Rightarrow> 'e list \<Rightarrow> 'e list list
     \<Rightarrow> 'e attempt \<Rightarrow> error + 'e attempt" where
  "toLoop g tol frc d from [] st = Inr st"
| "toLoop g tol frc d from (to # tos) (found, resultPathPart, fakePath) =
     (if found then Inr (found, resultPathPart, fakePath)
      else
        case ConnectAdjacentCandidateLines g from to frc d [] of
          Inl err \<Rightarrow> Inl err
        | Inr (found1, part) \<Rightarrow>
            if \<not> found1 then toLoop g tol frc d from tos (found1, part, fakePath)
            else
              let found2 = ValidatePath g part d tol in
              if fakePath = [] \<and> found2 \<and> (IsFake g (hd part) \<or> IsFake g (last part))
              then toLoop g tol frc d from tos (False, part, part)
              else toLoop g tol frc d from tos (found2, part, fakePath))"

fun fromLoop ::
  "('e::linorder, 'j) Graph \<Rightarrow> real \<Rightarrow> 'f \<Rightarrow> uint32_t \<Rightarrow> 'e list list \<Rightarrow> 'e list list
     \<Rightarrow> 'e attempt \<Rightarrow> error + 'e attempt" where
  "fromLoop g tol frc d [] toCandidates st = Inr st"
| "fromLoop g tol frc d (from # froms) toCandidates (found, resultPathPart, fakePath) =
     (if found then Inr (found, resultPathPart, fakePath)
      else
        case toLoop g tol frc d from toCandidates (found, resultPathPart, fakePath) of
          Inl err \<Rightarrow> Inl err
        | Inr st \<Rightarrow> fromLoop g tol frc d froms toCandidates st)"

text \<open>\<^verbatim>\<open>resultPath.resize(n)\<close>: cut to \<open>n\<close> elements or filled with empty vectors.\<close>

definition resize :: "nat \<Rightarrow> 'e list list \<Rightarrow> 'e list list" where
  "resize n xs = take n xs @ replicate (n - length xs) []"

text \<open>
  The body of the loop over the segments, up to the test \<^verbatim>\<open>if (!found)\<close>: the two
  loops over the candidates, then the fallback to \<open>fakePath\<close>. The result is \<open>found\<close>
  and \<open>resultPathPart\<close> at that test.
\<close>

definition connectSegment ::
  "('e::linorder, 'j) Graph \<Rightarrow> real \<Rightarrow> 'f LocationReferencePoint \<Rightarrow> 'e list list
     \<Rightarrow> 'e list list \<Rightarrow> 'e list \<Rightarrow> error + (bool \<times> 'e list)" where
  "connectSegment g tol point fromCandidates toCandidates resultPathPart =
     (case fromLoop g tol (m_functionalRoadClass point) (m_distanceToNextPoint point)
             fromCandidates toCandidates (False, resultPathPart, []) of
        Inl err \<Rightarrow> Inl err
      | Inr (found, part, fakePath) \<Rightarrow>
          if fakePath \<noteq> [] \<and> \<not> found then Inr (True, fakePath) else Inr (found, part))"

text \<open>
  The loop \<^verbatim>\<open>for (size_t i = 1; i < points.size(); ++i)\<close>, over the list of the
  values of \<open>i\<close> still to come. \<^verbatim>\<open>lineCandidates[i]\<close> beyond the end of the vector is
  a read outside it. The result is the returned flag, \<open>resultPath\<close> and the statistics
  after the call.
\<close>

fun segmentLoop ::
  "('e::linorder, 'j) Graph \<Rightarrow> real \<Rightarrow> 'f LocationReferencePoint list \<Rightarrow> 'e list list list
     \<Rightarrow> nat list \<Rightarrow> 'e list list \<Rightarrow> Stats \<Rightarrow> error + (bool \<times> 'e list list \<times> Stats)" where
  "segmentLoop g tol points lineCandidates [] resultPath stat = Inr (True, resultPath, stat)"
| "segmentLoop g tol points lineCandidates (i # is) resultPath stat =
     (if \<not> i < length lineCandidates then Inl OutOfRange
      else
        case connectSegment g tol (points ! (i - 1)) (lineCandidates ! (i - 1))
               (lineCandidates ! i) (resultPath ! (i - 1)) of
          Inl err \<Rightarrow> Inl err
        | Inr (found, resultPathPart) \<Rightarrow>
            if \<not> found
            then Inr (False, resultPath[i - 1 := []],
                      stat\<lparr>m_noShortestPathFound := m_noShortestPathFound stat + 1\<rparr>)
            else segmentLoop g tol points lineCandidates is
                   (resultPath[i - 1 := resultPathPart]) stat)"

definition ConnectCandidates ::
  "('e::linorder, 'j) Graph \<Rightarrow> real \<Rightarrow> 'f LocationReferencePoint list \<Rightarrow> 'e list list list
     \<Rightarrow> 'e list list \<Rightarrow> Stats \<Rightarrow> error + (bool \<times> 'e list list \<times> Stats)" where
  "ConnectCandidates g m_pathLengthTolerance points lineCandidates resultPath stat =
     (if points = [] then Inl AssertionFailed
      else segmentLoop g m_pathLengthTolerance points lineCandidates
             [1 ..< length points] (resize (length points - 1) resultPath) stat)"

subsection \<open>Notions the properties are stated with\<close>

text \<open>
  The edges common to \<open>a\<close> and \<open>b\<close> are exactly the last \<open>k\<close> edges of \<open>a\<close>, which
  are, in order, the first \<open>k\<close> edges of \<open>b\<close>.
\<close>

definition clean_overlap :: "'e list \<Rightarrow> 'e list \<Rightarrow> nat \<Rightarrow> bool" where
  "clean_overlap a b k =
     (k \<le> length a \<and> k \<le> length b \<and> drop (length a - k) a = take k b
      \<and> set a \<inter> set b = set (take k b))"

text \<open>
  A path of the graph is a non-empty sequence of edges, each one among the outgoing edges
  of the end junction of the one before: the edges the search may step through.
\<close>

fun is_path :: "('e, 'j) Graph \<Rightarrow> 'e list \<Rightarrow> bool" where
  "is_path g [] = False"
| "is_path g [e] = True"
| "is_path g (e # e' # es) =
     (e' \<in> set (GetOutgoingEdges g (GetEndJunction g e)) \<and> is_path g (e' # es))"

definition path_between :: "('e, 'j) Graph \<Rightarrow> 'e \<Rightarrow> 'e \<Rightarrow> 'e list \<Rightarrow> bool" where
  "path_between g from to p = (is_path g p \<and> hd p = from \<and> last p = to)"

definition path_length :: "('e, 'j) Graph \<Rightarrow> 'e list \<Rightarrow> real" where
  "path_length g p = sum_list (map (EdgeLength g) p)"

subsection \<open>Concrete graphs and inputs\<close>

text \<open>
  Small inputs the properties are run on. Edges and junctions are integers, and an edge
  ends in the junction of its own number.
\<close>

definition g_len :: "(int, int) Graph" where
  "g_len = \<lparr>GetEndJunction = (\<lambda>e. e), GetOutgoingEdges = (\<lambda>j. []),
            EdgeLength = (\<lambda>e. real_of_int e), IsFake = (\<lambda>e. False), DefaultEdge = 0\<rparr>"

definition g_uturn :: "(int, int) Graph" where
  "g_uturn = \<lparr>GetEndJunction = (\<lambda>e. e),
     GetOutgoingEdges = (\<lambda>j. if j = 1 then [2, 3] else if j = 2 then [1] else []),
     EdgeLength = (\<lambda>e. 10), IsFake = (\<lambda>e. False), DefaultEdge = 0\<rparr>"

definition g_chain :: "(int, int) Graph" where
  "g_chain = \<lparr>GetEndJunction = (\<lambda>e. e),
     GetOutgoingEdges = (\<lambda>j. if j = 1 then [2] else if j = 2 then [3] else if j = 3 then [4]
                              else if j = 4 then [5] else []),
     EdgeLength = (\<lambda>e. 10), IsFake = (\<lambda>e. False), DefaultEdge = 0\<rparr>"

definition g_fake :: "(int, int) Graph" where
  "g_fake = \<lparr>GetEndJunction = (\<lambda>e. e), GetOutgoingEdges = (\<lambda>j. []),
     EdgeLength = (\<lambda>e. 50), IsFake = (\<lambda>e. e = 2 \<or> e = 3), DefaultEdge = 0\<rparr>"

definition lrp :: "uint32_t \<Rightarrow> unit LocationReferencePoint" where
  "lrp d = \<lparr>m_distanceToNextPoint = d, m_functionalRoadClass = ()\<rparr>"

definition no_stats :: Stats where
  "no_stats = \<lparr>m_noShortestPathFound = 0\<rparr>"

definition g_frac :: "(int, int) Graph" where
  "g_frac = \<lparr>GetEndJunction = (\<lambda>e. e),
     GetOutgoingEdges = (\<lambda>j. if j = 1 then [2, 3] else if j = 2 then [4] else if j = 3 then [4] else []),
     EdgeLength = (\<lambda>e. if e = 1 then 0 else if e = 2 then 19 / 10 else 1),
     IsFake = (\<lambda>e. False), DefaultEdge = 0\<rparr>"

definition g_long :: "(int, int) Graph" where
  "g_long = \<lparr>GetEndJunction = (\<lambda>e. e),
     GetOutgoingEdges = (\<lambda>j. if j = 1 then [2] else []),
     EdgeLength = (\<lambda>e. if e = 1 then 100 else 5),
     IsFake = (\<lambda>e. False), DefaultEdge = 0\<rparr>"

subsection \<open>The invariant of the search\<close>

text \<open>
  The notions the proof of the search runs on. \<open>successors\<close> are the edges the search
  reaches from an edge; \<open>ilen\<close> is the length of an edge as the \<^verbatim>\<open>uint32_t\<close> score
  counts it; \<open>icost\<close> is the score of a path, the lengths of its edges after the first.
\<close>

definition successors :: "('e, 'j) Graph \<Rightarrow> 'e \<Rightarrow> 'e list" where
  "successors g e = GetOutgoingEdges g (GetEndJunction g e)"

definition ilen :: "('e, 'j) Graph \<Rightarrow> 'e \<Rightarrow> nat" where
  "ilen g e = nat \<lfloor>EdgeLength g e\<rfloor>"

definition icost :: "('e, 'j) Graph \<Rightarrow> 'e list \<Rightarrow> nat" where
  "icost g p = sum_list (map (ilen g) (tl p))"

text \<open>
  The graph the search sees from its source: a finite set \<open>E\<close> of edges closed under
  \<open>successors\<close>, with lengths that are whole numbers and small enough for the scores
  within the budget \<open>maxPathLength + 10\<close> not to wrap around.
\<close>

definition search_graph :: "('e, 'j) Graph \<Rightarrow> 'e set \<Rightarrow> uint32_t \<Rightarrow> bool" where
  "search_graph g E maxPathLength =
     (finite E
      \<and> (\<forall>e\<in>E. set (successors g e) \<subseteq> E)
      \<and> (\<forall>e\<in>E. EdgeLength g e = real (ilen g e))
      \<and> (\<forall>e\<in>E. unat maxPathLength + 10 + ilen g e < 2 ^ 32))"

text \<open>\<open>linked links src p\<close>: \<open>p\<close> starts at \<open>src\<close> and each later edge is linked to the one before.\<close>

inductive linked :: "('e \<rightharpoonup> 'e) \<Rightarrow> 'e \<Rightarrow> 'e list \<Rightarrow> bool" for links :: "'e \<rightharpoonup> 'e" and src :: 'e where
  linked_src: "linked links src [src]"
| linked_snoc: "linked links src p \<Longrightarrow> links e = Some (last p) \<Longrightarrow> e \<noteq> src
     \<Longrightarrow> linked links src (p @ [e])"

text \<open>The measure that decreases with every turn of the loop.\<close>

definition score_potential :: "'e set \<Rightarrow> ('e \<rightharpoonup> uint32_t) \<Rightarrow> nat" where
  "score_potential E scores = (\<Sum>e\<in>E. case scores e of None \<Rightarrow> 2 ^ 32 | Some s \<Rightarrow> unat s)"

definition search_measure :: "'e set \<Rightarrow> 'e search \<Rightarrow> nat" where
  "search_measure E st = (case st of (q, scores, links) \<Rightarrow> 2 * score_potential E scores + length q)"

text \<open>
  The invariant of the loop, for the set \<open>S\<close> of the edges expanded so far. While the
  outgoing edges of \<open>u\<close> are being relaxed, \<open>pending\<close> are those still to come.
\<close>

definition dijkstra_inv ::
  "('e::linorder, 'j) Graph \<Rightarrow> 'e \<Rightarrow> 'e \<Rightarrow> nat \<Rightarrow> 'e set \<Rightarrow> 'e set \<Rightarrow> 'e \<Rightarrow> 'e list
     \<Rightarrow> 'e search \<Rightarrow> bool" where
  "dijkstra_inv g src to B E S u pending st =
     (case st of (q, scores, links) \<Rightarrow>
        scores src = Some 0
      \<and> S \<subseteq> E \<and> dom scores \<subseteq> E \<and> to \<notin> S
      \<and> (\<forall>x\<in>set q. \<exists>s. scores (m_edge x) = Some s \<and> s \<le> m_score x)
      \<and> (\<forall>e s. scores e = Some s \<and> e \<notin> S
            \<longrightarrow> \<lparr>m_edge = e, m_score = s\<rparr> \<in> set q \<or> B < unat s)
      \<and> (\<forall>e s. scores e = Some s \<and> e \<notin> S \<and> e \<noteq> src
            \<longrightarrow> (\<exists>w sw. w \<in> S \<and> links e = Some w \<and> e \<in> set (successors g w)
                     \<and> scores w = Some sw \<and> unat s = unat sw + ilen g e))
      \<and> (\<forall>x\<in>S. \<exists>s p. scores x = Some s \<and> unat s \<le> B
            \<and> linked links src p \<and> last p = x \<and> set p \<subseteq> S \<and> is_path g p
            \<and> icost g p = unat s
            \<and> (\<forall>p'. path_between g src x p' \<longrightarrow> unat s \<le> icost g p'))
      \<and> (\<forall>x\<in>S. \<forall>e\<in>set (successors g x).
            (x = u \<and> e \<in> set pending)
            \<or> (\<exists>s sx. scores e = Some s \<and> scores x = Some sx \<and> unat s \<le> unat sx + ilen g e)))"

section \<open>Properties\<close>

subsection \<open>The road class\<close>

text \<open>
  Claim C9. For every graph, source, target, maximal length and path, and every two road
  classes, \<open>FindShortestPath\<close> returns the same flag and the same path: the road class has
  no influence on the search.
\<close>

theorem FindShortestPath_ignores_frc:
  "FindShortestPath g from to frc1 maxPathLength path
     = FindShortestPath g from to frc2 maxPathLength path"
  by (simp add: FindShortestPath_def)

subsection \<open>A single point\<close>

text \<open>
  Claim C10. For a list of exactly one point, \<open>ConnectCandidates\<close> returns true with an
  empty list of segments and the statistics unchanged, whatever the graph, the candidates
  and the vector passed in: neither the matcher nor the validator nor the search has a part
  in the result.
\<close>

theorem ConnectCandidates_single_point:
  "ConnectCandidates g tol [point] lineCandidates resultPath stat = Inr (True, [], stat)"
  by (simp add: ConnectCandidates_def resize_def)

subsection \<open>Overlap of duplicate-free sequences\<close>

lemma set_intersection_count_card:
  "sorted xs \<Longrightarrow> distinct xs \<Longrightarrow> sorted ys \<Longrightarrow> distinct ys
     \<Longrightarrow> set_intersection_count xs ys = card (set xs \<inter> set ys)"
proof (induction xs ys rule: set_intersection_count.induct)
  case (1 ys)
  then show ?case by simp
next
  case (2 x xs)
  then show ?case by simp
next
  case (3 x xs y ys)
  show ?case
  proof (cases "x < y")
    case True
    with 3 have "x \<notin> set (y # ys)" by auto
    then have "set (x # xs) \<inter> set (y # ys) = set xs \<inter> set (y # ys)" by auto
    with True 3 show ?thesis by simp
  next
    case False
    show ?thesis
    proof (cases "y < x")
      case True
      with 3 have "y \<notin> set (x # xs)" by auto
      then have "set (x # xs) \<inter> set (y # ys) = set (x # xs) \<inter> set ys" by auto
      with True False 3 show ?thesis by simp
    next
      case F2: False
      with False have xy: "x = y" by simp
      with 3 have "x \<notin> set xs" "x \<notin> set ys" by auto
      then have "set (x # xs) \<inter> set (y # ys) = insert x (set xs \<inter> set ys)"
        and "x \<notin> set xs \<inter> set ys"
        using xy by auto
      then have "card (set (x # xs) \<inter> set (y # ys)) = Suc (card (set xs \<inter> set ys))"
        by simp
      with xy 3 show ?thesis by simp
    qed
  qed
qed

lemma IntersectionLen_card:
  "distinct a \<Longrightarrow> distinct b \<Longrightarrow> IntersectionLen a b = card (set a \<inter> set b)"
  using set_intersection_count_card [of "sort a" "sort b"]
  by (simp add: IntersectionLen_def)

lemma set_intersection_count_le:
  "set_intersection_count xs ys \<le> length xs \<and> set_intersection_count xs ys \<le> length ys"
  by (induction xs ys rule: set_intersection_count.induct) auto

lemma IntersectionLen_le:
  "IntersectionLen a b \<le> length a" "IntersectionLen a b \<le> length b"
  using set_intersection_count_le [of "sort a" "sort b"]
  by (simp_all add: IntersectionLen_def)

text \<open>The assertions of \<open>PrefEqualsSuff\<close> never fail.\<close>

lemma PathOverlappingLen_eq:
  "PathOverlappingLen a b =
     Inr (if drop (length a - IntersectionLen a b) a = take (IntersectionLen a b) b
          then int (IntersectionLen a b) else - 1)"
  by (simp add: PathOverlappingLen_def PrefEqualsSuff_def IntersectionLen_le Let_def)

lemma clean_overlap_card:
  assumes "distinct b" "clean_overlap a b k"
  shows "card (set a \<inter> set b) = k"
proof -
  from assms have "card (set a \<inter> set b) = card (set (take k b))"
    by (simp add: clean_overlap_def)
  also have "\<dots> = length (take k b)"
    using assms(1) by (simp add: distinct_card)
  also have "\<dots> = k" using assms(2) by (simp add: clean_overlap_def)
  finally show ?thesis .
qed

lemma PathOverlappingLen_clean:
  assumes "distinct a" "distinct b" "clean_overlap a b k"
  shows "PathOverlappingLen a b = Inr (int k)"
proof -
  have "IntersectionLen a b = k"
    using assms by (simp add: IntersectionLen_card clean_overlap_card)
  then show ?thesis
    using assms(3) by (simp add: PathOverlappingLen_eq clean_overlap_def)
qed

lemma PathOverlappingLen_cases:
  assumes "distinct a" "distinct b"
  shows "(\<exists>k. clean_overlap a b k \<and> PathOverlappingLen a b = Inr (int k))
         \<or> ((\<forall>k. \<not> clean_overlap a b k) \<and> PathOverlappingLen a b = Inr (- 1))"
proof (cases "\<exists>k. clean_overlap a b k")
  case True
  then show ?thesis using assms PathOverlappingLen_clean by blast
next
  case False
  let ?n = "IntersectionLen a b"
  have n: "?n = card (set a \<inter> set b)" using assms by (simp add: IntersectionLen_card)
  have "drop (length a - ?n) a \<noteq> take ?n b"
  proof
    assume eq: "drop (length a - ?n) a = take ?n b"
    have sub: "set (take ?n b) \<subseteq> set a \<inter> set b"
    proof
      fix x assume x: "x \<in> set (take ?n b)"
      then have "x \<in> set b" by (rule in_set_takeD)
      moreover from x eq have "x \<in> set (drop (length a - ?n) a)" by simp
      then have "x \<in> set a" by (rule in_set_dropD)
      ultimately show "x \<in> set a \<inter> set b" by simp
    qed
    have "card (set (take ?n b)) = ?n"
      using assms(2) IntersectionLen_le(2) [of a b] by (simp add: distinct_card)
    with n sub have "set (take ?n b) = set a \<inter> set b"
      by (simp add: card_subset_eq)
    with eq have "clean_overlap a b ?n"
      by (simp add: clean_overlap_def IntersectionLen_le)
    with False show False by blast
  qed
  with False show ?thesis by (simp add: PathOverlappingLen_eq)
qed

lemma clean_overlap_disjoint_tail:
  assumes "distinct b" "clean_overlap a b k"
  shows "set a \<inter> set (drop k b) = {}"
proof -
  have "set (take k b) \<inter> set (drop k b) = {}"
    using assms(1) by (metis append_take_drop_id distinct_append)
  moreover have "set (drop k b) \<subseteq> set b" by (rule set_drop_subset)
  ultimately show ?thesis using assms(2) by (auto simp: clean_overlap_def)
qed

text \<open>
  Claim C4. For duplicate-free sequences \<open>A\<close> and \<open>B\<close> whose common edges are exactly the
  last \<open>k\<close> edges of \<open>A\<close>, equal in order to the first \<open>k\<close> edges of \<open>B\<close>, with \<open>k > 0\<close>,
  \<open>ConnectAdjacentCandidateLines\<close> succeeds with \<open>A\<close> followed by \<open>B\<close> without its first \<open>k\<close>
  edges; the result has \<open>length A + length B - k\<close> edges and no edge twice.
\<close>

theorem ConnectAdjacentCandidateLines_clean_overlap:
  assumes "distinct A" "distinct B" "clean_overlap A B k" "0 < k"
  shows "ConnectAdjacentCandidateLines g A B frc d [] = Inr (True, A @ drop k B)
         \<and> length (A @ drop k B) = length A + length B - k
         \<and> distinct (A @ drop k B)"
proof -
  from assms(3,4) have "B \<noteq> []" by (auto simp: clean_overlap_def)
  then have 1: "ConnectAdjacentCandidateLines g A B frc d [] = Inr (True, A @ drop k B)"
    using assms by (simp add: ConnectAdjacentCandidateLines_def PathOverlappingLen_clean)
  have 2: "length (A @ drop k B) = length A + length B - k"
    using assms(3) by (simp add: clean_overlap_def)
  have "set A \<inter> set (drop k B) = {}"
    using assms(2,3) by (rule clean_overlap_disjoint_tail)
  then have 3: "distinct (A @ drop k B)"
    using assms(1,2) by simp
  from 1 2 3 show ?thesis by simp
qed

theorem ConnectAdjacentCandidateLines_clean_overlap_witness:
  "distinct [1, 2, 3 :: int] \<and> distinct [2, 3, 4 :: int] \<and> clean_overlap [1, 2, 3 :: int] [2, 3, 4] 2
   \<and> (0::nat) < 2
   \<and> ConnectAdjacentCandidateLines g_len [1, 2, 3] [2, 3, 4] () 100 [] = Inr (True, [1, 2, 3, 4])"
proof -
  have h: "distinct [1, 2, 3 :: int]" "distinct [2, 3, 4 :: int]"
    "clean_overlap [1, 2, 3 :: int] [2, 3, 4] 2" "(0::nat) < 2"
    by (simp_all add: clean_overlap_def)
  show ?thesis
    using h ConnectAdjacentCandidateLines_clean_overlap [OF h, of g_len "()" 100] by simp
qed

text \<open>
  Claim C2, as the code has it. For duplicate-free sequences \<open>A\<close> and \<open>B\<close> that share an
  edge, but whose common edges are not a suffix of \<open>A\<close> equal to a prefix of \<open>B\<close>,
  \<open>ConnectAdjacentCandidateLines\<close> returns false at once and leaves \<open>resultPath\<close> as it
  was, for every graph: the shortest-path search is not tried, and no splice is produced.
\<close>

theorem ConnectAdjacentCandidateLines_invalid_overlap:
  assumes "distinct A" "distinct B" "set A \<inter> set B \<noteq> {}" "\<forall>k. \<not> clean_overlap A B k"
  shows "ConnectAdjacentCandidateLines g A B frc d resultPath = Inr (False, resultPath)"
proof -
  from assms(3) have "B \<noteq> []" by auto
  moreover have "PathOverlappingLen A B = Inr (- 1)"
    using PathOverlappingLen_cases [OF assms(1,2)] assms(4) by blast
  ultimately show ?thesis by (simp add: ConnectAdjacentCandidateLines_def)
qed

subsection \<open>The reconstruction of the path\<close>

text \<open>
  When the walk along the links returns, it has appended the edges reached after
  \<open>0, 1, \<dots>, n - 1\<close> steps, where \<open>n\<close> is the first step that reaches \<open>from\<close>.
\<close>

lemma count_list_distinct: "distinct xs \<Longrightarrow> x \<in> set xs \<Longrightarrow> count_list xs x = 1"
  by (induction xs) auto

lemma iterates_Suc:
  "map (\<lambda>m. (f ^^ m) e) [0..<Suc n] = e # map (\<lambda>m. (f ^^ m) (f e)) [0..<n]"
proof -
  have "[0..<Suc n] = 0 # map Suc [0..<n]"
    by (simp add: upt_conv_Cons map_Suc_upt del: upt_Suc)
  then show ?thesis
    by (simp add: funpow_swap1 comp_def del: upt_Suc)
qed

lemma walk_links_Some:
  assumes "walk_links links dflt src e path = Some p"
  shows "\<exists>n. (links_at links dflt ^^ n) e = src
            \<and> (\<forall>m<n. (links_at links dflt ^^ m) e \<noteq> src)
            \<and> p = path @ map (\<lambda>m. (links_at links dflt ^^ m) e) [0..<n]"
proof (rule walk_links.raw_induct
    [where P = "\<lambda>links dflt src e path p. \<exists>n. (links_at links dflt ^^ n) e = src
            \<and> (\<forall>m<n. (links_at links dflt ^^ m) e \<noteq> src)
            \<and> p = path @ map (\<lambda>m. (links_at links dflt ^^ m) e) [0..<n]", OF _ assms])
  fix walk :: "('a \<rightharpoonup> 'a) \<Rightarrow> 'a \<Rightarrow> 'a \<Rightarrow> 'a \<Rightarrow> 'a list \<Rightarrow> 'a list option"
    and links dflt src e path p
  assume IH: "\<And>links dflt src e path p. walk links dflt src e path = Some p \<Longrightarrow>
      \<exists>n. (links_at links dflt ^^ n) e = src
            \<and> (\<forall>m<n. (links_at links dflt ^^ m) e \<noteq> src)
            \<and> p = path @ map (\<lambda>m. (links_at links dflt ^^ m) e) [0..<n]"
    and step: "(if e \<noteq> src then walk links dflt src (links_at links dflt e) (path @ [e])
               else Some path) = Some p"
  let ?f = "links_at links dflt"
  show "\<exists>n. (?f ^^ n) e = src \<and> (\<forall>m<n. (?f ^^ m) e \<noteq> src)
            \<and> p = path @ map (\<lambda>m. (?f ^^ m) e) [0..<n]"
  proof (cases "e = src")
    case True
    with step have "p = path" by simp
    with True have "(?f ^^ 0) e = src \<and> (\<forall>m<0. (?f ^^ m) e \<noteq> src)
        \<and> p = path @ map (\<lambda>m. (?f ^^ m) e) [0..<0]" by simp
    then show ?thesis by blast
  next
    case False
    with step have "walk links dflt src (?f e) (path @ [e]) = Some p" by simp
    from IH [OF this] obtain n where n: "(?f ^^ n) (?f e) = src"
      "\<forall>m<n. (?f ^^ m) (?f e) \<noteq> src"
      "p = (path @ [e]) @ map (\<lambda>m. (?f ^^ m) (?f e)) [0..<n]" by blast
    have a: "(?f ^^ Suc n) e = src" using n(1) by (simp add: funpow_swap1)
    have b: "\<forall>m<Suc n. (?f ^^ m) e \<noteq> src"
    proof (intro allI impI)
      fix m assume "m < Suc n"
      show "(?f ^^ m) e \<noteq> src"
      proof (cases m)
        case 0
        with False show ?thesis by simp
      next
        case (Suc k)
        with \<open>m < Suc n\<close> n(2) show ?thesis by (simp add: funpow_swap1)
      qed
    qed
    have "map (\<lambda>m. (?f ^^ m) e) [0..<Suc n] = e # map (\<lambda>m. (?f ^^ m) (?f e)) [0..<n]"
      by (rule iterates_Suc)
    with n(3) have c: "p = path @ map (\<lambda>m. (?f ^^ m) e) [0..<Suc n]" by simp
    from a b c show ?thesis by blast
  qed
qed

lemma walk_links_terminates:
  assumes "(links_at links dflt ^^ n) e = from"
    and "\<forall>m<n. (links_at links dflt ^^ m) e \<noteq> from"
  shows "walk_links links dflt from e path
           = Some (path @ map (\<lambda>m. (links_at links dflt ^^ m) e) [0..<n])"
  using assms
proof (induction n arbitrary: e path)
  case 0
  then show ?case by (simp add: walk_links.simps)
next
  case (Suc n)
  let ?f = "links_at links dflt"
  from Suc.prems(2) have ne: "e \<noteq> from" by force
  have 1: "(?f ^^ n) (?f e) = from" using Suc.prems(1) by (simp add: funpow_swap1)
  have 2: "\<forall>m<n. (?f ^^ m) (?f e) \<noteq> from"
  proof (intro allI impI)
    fix m assume "m < n"
    then have "(?f ^^ Suc m) e \<noteq> from" using Suc.prems(2) by blast
    then show "(?f ^^ m) (?f e) \<noteq> from" by (simp add: funpow_swap1)
  qed
  have m: "map (\<lambda>m. (?f ^^ m) e) [0..<Suc n] = e # map (\<lambda>m. (?f ^^ m) (?f e)) [0..<n]"
    by (rule iterates_Suc)
  have "walk_links links dflt from e path = walk_links links dflt from (?f e) (path @ [e])"
    using ne by (subst walk_links.simps) simp
  also have "\<dots> = Some ((path @ [e]) @ map (\<lambda>m. (?f ^^ m) (?f e)) [0..<n])"
    by (rule Suc.IH [OF 1 2])
  finally show ?case using m by simp
qed

lemma first_hit_distinct:
  fixes f :: "'a \<Rightarrow> 'a"
  assumes "(f ^^ n) e = a" and "\<forall>m<n. (f ^^ m) e \<noteq> a"
  shows "distinct (map (\<lambda>m. (f ^^ m) e) [0..<n])"
proof -
  have "inj_on (\<lambda>m. (f ^^ m) e) {0..<n}"
  proof (rule linorder_inj_onI)
    fix i j assume ij: "i < j" and i: "i \<in> {0..<n}" and j: "j \<in> {0..<n}"
    show "(f ^^ i) e \<noteq> (f ^^ j) e"
    proof
      assume eq: "(f ^^ i) e = (f ^^ j) e"
      have "(f ^^ (n - j + i)) e = (f ^^ (n - j)) ((f ^^ i) e)" by (simp add: funpow_add)
      also have "\<dots> = (f ^^ (n - j)) ((f ^^ j) e)" by (simp add: eq)
      also have "\<dots> = (f ^^ (n - j + j)) e" by (simp add: funpow_add)
      also have "\<dots> = a" using j assms(1) by simp
      finally have "(f ^^ (n - j + i)) e = a" .
      moreover have "n - j + i < n" using ij j by simp
      ultimately show False using assms(2) by blast
    qed
  qed auto
  then show ?thesis by (simp add: distinct_map)
qed

text \<open>The search returns true only through the reconstruction, and false with \<open>path\<close> as it was.\<close>

lemma dijkstra_Some:
  assumes "dijkstra g src to maxPathLength path st = Some r"
  shows "(fst r \<longrightarrow> (\<exists>links w. walk_links links (DefaultEdge g) src to path = Some w
                        \<and> snd r = rev (w @ [src])))
         \<and> (\<not> fst r \<longrightarrow> snd r = path)"
proof (rule dijkstra.raw_induct
    [where P = "\<lambda>g src to maxPathLength path st r.
         (fst r \<longrightarrow> (\<exists>links w. walk_links links (DefaultEdge g) src to path = Some w
                        \<and> snd r = rev (w @ [src])))
         \<and> (\<not> fst r \<longrightarrow> snd r = path)", OF _ assms])
  fix dijk :: "('a, 'b) Graph \<Rightarrow> 'a \<Rightarrow> 'a \<Rightarrow> uint32_t \<Rightarrow> 'a list \<Rightarrow> 'a search
                 \<Rightarrow> (bool \<times> 'a list) option"
    and g src to maxPathLength path st r
  assume IH: "\<And>g src to maxPathLength path st r. dijk g src to maxPathLength path st = Some r \<Longrightarrow>
         (fst r \<longrightarrow> (\<exists>links w. walk_links links (DefaultEdge g) src to path = Some w
                        \<and> snd r = rev (w @ [src])))
         \<and> (\<not> fst r \<longrightarrow> snd r = path)"
    and step: "(case st of (q, scores, links) \<Rightarrow>
        if q = [] then Some (False, path)
        else let state = q_top q; q1 = q_pop q; u = m_edge state; us = m_score state
             in if maxPathLength + kLengthToleranceM < us
                then dijk g src to maxPathLength path (q1, scores, links)
                else let su = case scores u of None \<Rightarrow> 0 | Some s \<Rightarrow> s;
                         scores1 = scores(u \<mapsto> su)
                     in if su < us
                        then dijk g src to maxPathLength path (q1, scores1, links)
                        else if u = to
                             then map_option (\<lambda>p. (True, rev (p @ [src])))
                                   (walk_links links (DefaultEdge g) src u path)
                             else dijk g src to maxPathLength path
                                   (fold (relax g u us) (GetOutgoingEdges g (GetEndJunction g u))
                                     (q1, scores1, links))) = Some r"
  obtain q scores links where st: "st = (q, scores, links)" by (cases st)
  show "(fst r \<longrightarrow> (\<exists>links w. walk_links links (DefaultEdge g) src to path = Some w
                        \<and> snd r = rev (w @ [src])))
         \<and> (\<not> fst r \<longrightarrow> snd r = path)"
  proof (cases "q = []")
    case True
    with step st show ?thesis by auto
  next
    case False
    let ?u = "m_edge (q_top q)" and ?us = "m_score (q_top q)"
    let ?su = "case scores ?u of None \<Rightarrow> 0 | Some s \<Rightarrow> s"
    have ih: "\<And>st'. dijk g src to maxPathLength path st' = Some r \<Longrightarrow> ?thesis"
      by (rule IH)
    consider (prune) "maxPathLength + kLengthToleranceM < ?us"
      | (stale) "\<not> maxPathLength + kLengthToleranceM < ?us" "?su < ?us"
      | (target) "\<not> maxPathLength + kLengthToleranceM < ?us" "\<not> ?su < ?us" "?u = to"
      | (expand) "\<not> maxPathLength + kLengthToleranceM < ?us" "\<not> ?su < ?us" "?u \<noteq> to"
      by blast
    then show ?thesis
    proof cases
      case prune
      with step st False have "dijk g src to maxPathLength path (q_pop q, scores, links) = Some r"
        by (simp add: Let_def)
      then show ?thesis by (rule ih)
    next
      case stale
      with step st False
      have "dijk g src to maxPathLength path (q_pop q, scores(?u \<mapsto> ?su), links) = Some r"
        by (simp add: Let_def)
      then show ?thesis by (rule ih)
    next
      case target
      with step st False
      have "map_option (\<lambda>p. (True, rev (p @ [src])))
              (walk_links links (DefaultEdge g) src to path) = Some r"
        by (simp add: Let_def)
      then show ?thesis by auto
    next
      case expand
      with step st False
      have "dijk g src to maxPathLength path
              (fold (relax g ?u ?us) (GetOutgoingEdges g (GetEndJunction g ?u))
                 (q_pop q, scores(?u \<mapsto> ?su), links)) = Some r"
        by (simp add: Let_def)
      then show ?thesis by (rule ih)
    qed
  qed
qed

lemma FindShortestPath_True:
  assumes "FindShortestPath g from to frc maxPathLength [] = Inr (True, P)"
  shows "P \<noteq> [] \<and> hd P = from \<and> last P = to \<and> distinct P"
proof -
  from assms obtain st where "dijkstra g from to maxPathLength [] st = Some (True, P)"
    by (auto simp: FindShortestPath_def split: option.splits)
  from dijkstra_Some [OF this] obtain links w
    where w: "walk_links links (DefaultEdge g) from to [] = Some w" and P: "P = rev (w @ [from])"
    by auto
  let ?f = "links_at links (DefaultEdge g)"
  from walk_links_Some [OF w] obtain n where n: "(?f ^^ n) to = from"
    "\<forall>m<n. (?f ^^ m) to \<noteq> from" "w = map (\<lambda>m. (?f ^^ m) to) [0..<n]" by auto
  have dw: "distinct w" using first_hit_distinct [OF n(1,2)] n(3) by simp
  have nw: "from \<notin> set w" using n(2,3) by auto
  have l: "last P = to"
  proof (cases n)
    case 0
    with n(1,3) P show ?thesis by simp
  next
    case (Suc k)
    then have "w = to # map (\<lambda>m. (?f ^^ m) (?f to)) [0..<k]"
      using n(3) iterates_Suc [of ?f to k] by simp
    with P show ?thesis by simp
  qed
  from P dw nw l show ?thesis by simp
qed

text \<open>
  Claim C5. For edge sequences \<open>from\<close> and \<open>to\<close> (duplicate-free, as every edge sequence
  is) that share no edge, when the search from the last edge of \<open>from\<close> to the first edge
  of \<open>to\<close> succeeds with the sub-path \<open>P\<close>, the result of
  \<open>ConnectAdjacentCandidateLines\<close> is \<open>from\<close> without its last edge, then \<open>P\<close>, then \<open>to\<close>
  without its first edge; \<open>P\<close> starts with the last edge of \<open>from\<close> and ends with the first
  edge of \<open>to\<close>, and each of the two occurs exactly once in the result.
\<close>

theorem ConnectAdjacentCandidateLines_search_splice:
  assumes "distinct from" "distinct to" "from \<noteq> []" "to \<noteq> []" "set from \<inter> set to = {}"
    and "FindShortestPath g (last from) (hd to) frc d [] = Inr (True, P)"
  shows "ConnectAdjacentCandidateLines g from to frc d [] = Inr (True, butlast from @ P @ tl to)
         \<and> hd P = last from \<and> last P = hd to
         \<and> count_list (butlast from @ P @ tl to) (last from) = 1
         \<and> count_list (butlast from @ P @ tl to) (hd to) = 1"
proof -
  have "clean_overlap from to 0" using assms(5) by (simp add: clean_overlap_def)
  then have ov: "PathOverlappingLen from to = Inr 0"
    using PathOverlappingLen_clean [OF assms(1,2), of 0] by simp
  have ne: "last from \<noteq> hd to" using assms(3,4,5)
    by (metis disjoint_iff hd_in_set last_in_set)
  have 1: "ConnectAdjacentCandidateLines g from to frc d [] = Inr (True, butlast from @ P @ tl to)"
    using assms(3,4,6) ov ne by (simp add: ConnectAdjacentCandidateLines_def)
  from FindShortestPath_True [OF assms(6)]
  have P: "P \<noteq> []" "hd P = last from" "last P = hd to" "distinct P" by simp_all
  have inP: "last from \<in> set P" "hd to \<in> set P" using P by (metis hd_in_set, metis last_in_set)
  have cP: "count_list P (last from) = 1" "count_list P (hd to) = 1"
    using P(4) inP by (simp_all add: count_list_distinct)
  have f1: "last from \<notin> set (butlast from)"
    using assms(1,3) by (metis append_butlast_last_id distinct_butlast not_distinct_conv_prefix)
  have f2: "last from \<notin> set (tl to)"
    using assms(3,4,5) by (metis disjoint_iff last_in_set list.set_sel(2))
  have t1: "hd to \<notin> set (butlast from)"
    using assms(3,4,5) by (metis disjoint_iff hd_in_set in_set_butlastD)
  have t2: "hd to \<notin> set (tl to)"
    using assms(2,4) by (metis distinct.simps(2) list.collapse)
  have 2: "count_list (butlast from @ P @ tl to) (last from) = 1"
    using cP(1) f1 f2 by (simp add: count_list_0_iff)
  have 3: "count_list (butlast from @ P @ tl to) (hd to) = 1"
    using cP(2) t1 t2 by (simp add: count_list_0_iff)
  from 1 P 2 3 show ?thesis by simp
qed

subsection \<open>Unfolding the functions on concrete inputs\<close>

lemmas search_eval = FindShortestPath_def dijkstra.simps walk_links.simps links_at_def
  q_emplace_def q_pop_def relax_def to_uint32_def kLengthToleranceM_def operator_gt_def Let_def

lemmas connect_eval = ConnectAdjacentCandidateLines_def PathOverlappingLen_def
  PrefEqualsSuff_def IntersectionLen_def

subsection \<open>The loops over the candidates\<close>

text \<open>
  Whatever the two loops return as found path or as fake path is a validated connection
  of a pair of candidates.
\<close>

lemma toLoop_keeps:
  assumes "toLoop g tol frc d f tos st = Inr st'"
    and "\<And>t r. t \<in> set tos \<Longrightarrow> ConnectAdjacentCandidateLines g f t frc d [] = Inr (True, r)
            \<Longrightarrow> ValidatePath g r d tol \<Longrightarrow> Q r"
    and "fst st \<longrightarrow> Q (fst (snd st))"
    and "snd (snd st) \<noteq> [] \<longrightarrow> Q (snd (snd st))"
  shows "(fst st' \<longrightarrow> Q (fst (snd st'))) \<and> (snd (snd st') \<noteq> [] \<longrightarrow> Q (snd (snd st')))"
  using assms
proof (induction tos arbitrary: st)
  case Nil
  then show ?case by simp
next
  case (Cons t tos)
  obtain found part fake where st: "st = (found, part, fake)" by (cases st)
  show ?case
  proof (cases found)
    case True
    with Cons.prems st show ?thesis by auto
  next
    case False
    from Cons.prems(1) st False obtain found1 part1
      where c: "ConnectAdjacentCandidateLines g f t frc d [] = Inr (found1, part1)"
      by (auto split: sum.splits)
    have Q': "\<And>t r. t \<in> set tos \<Longrightarrow> ConnectAdjacentCandidateLines g f t frc d [] = Inr (True, r)
            \<Longrightarrow> ValidatePath g r d tol \<Longrightarrow> Q r"
    proof -
      fix t' r assume "t' \<in> set tos"
        "ConnectAdjacentCandidateLines g f t' frc d [] = Inr (True, r)" "ValidatePath g r d tol"
      then show "Q r" by (intro Cons.prems(2) [of t' r]) simp_all
    qed
    have fk: "fake \<noteq> [] \<longrightarrow> Q fake" using Cons.prems(4) st by simp
    show ?thesis
    proof (cases found1)
      case F1: False
      with Cons.prems(1) st False c
      have "toLoop g tol frc d f tos (False, part1, fake) = Inr st'" by simp
      from Cons.IH [OF this Q'] fk show ?thesis by simp
    next
      case True
      show ?thesis
      proof (cases "ValidatePath g part1 d tol")
        case V: True
        have q1: "Q part1" using Cons.prems(2) [of t part1] c True V by simp
        show ?thesis
        proof (cases "fake = [] \<and> (IsFake g (hd part1) \<or> IsFake g (last part1))")
          case T2: True
          with Cons.prems(1) st False c True V
          have "toLoop g tol frc d f tos (False, part1, part1) = Inr st'" by (simp add: Let_def)
          from Cons.IH [OF this Q'] q1 show ?thesis by simp
        next
          case F2: False
          with Cons.prems(1) st False c True V
          have "toLoop g tol frc d f tos (True, part1, fake) = Inr st'" by (auto simp: Let_def)
          from Cons.IH [OF this Q'] q1 fk show ?thesis by simp
        qed
      next
        case NV: False
        with Cons.prems(1) st False c True
        have "toLoop g tol frc d f tos (False, part1, fake) = Inr st'" by (simp add: Let_def)
        from Cons.IH [OF this Q'] fk show ?thesis by simp
      qed
    qed
  qed
qed

lemma fromLoop_keeps:
  assumes "fromLoop g tol frc d froms tos st = Inr st'"
    and "\<And>f t r. f \<in> set froms \<Longrightarrow> t \<in> set tos
            \<Longrightarrow> ConnectAdjacentCandidateLines g f t frc d [] = Inr (True, r)
            \<Longrightarrow> ValidatePath g r d tol \<Longrightarrow> Q r"
    and "fst st \<longrightarrow> Q (fst (snd st))"
    and "snd (snd st) \<noteq> [] \<longrightarrow> Q (snd (snd st))"
  shows "(fst st' \<longrightarrow> Q (fst (snd st'))) \<and> (snd (snd st') \<noteq> [] \<longrightarrow> Q (snd (snd st')))"
  using assms
proof (induction froms arbitrary: st)
  case Nil
  then show ?case by simp
next
  case (Cons f froms)
  obtain found part fake where st: "st = (found, part, fake)" by (cases st)
  show ?case
  proof (cases found)
    case True
    with Cons.prems st show ?thesis by auto
  next
    case False
    from Cons.prems(1) st False obtain st1
      where t: "toLoop g tol frc d f tos st = Inr st1"
        and r: "fromLoop g tol frc d froms tos st1 = Inr st'"
      by (auto split: sum.splits)
    have 1: "(fst st1 \<longrightarrow> Q (fst (snd st1))) \<and> (snd (snd st1) \<noteq> [] \<longrightarrow> Q (snd (snd st1)))"
      by (rule toLoop_keeps [OF t _ Cons.prems(3,4)]) (rule Cons.prems(2), simp_all)
    have Q': "\<And>f' t r. f' \<in> set froms \<Longrightarrow> t \<in> set tos
            \<Longrightarrow> ConnectAdjacentCandidateLines g f' t frc d [] = Inr (True, r)
            \<Longrightarrow> ValidatePath g r d tol \<Longrightarrow> Q r"
    proof -
      fix f' t r assume "f' \<in> set froms" "t \<in> set tos"
        "ConnectAdjacentCandidateLines g f' t frc d [] = Inr (True, r)" "ValidatePath g r d tol"
      then show "Q r" by (intro Cons.prems(2) [of f' t r]) simp_all
    qed
    show ?thesis
      by (rule Cons.IH [OF r Q']) (use 1 in simp_all)
  qed
qed

lemma connectSegment_True:
  assumes "connectSegment g tol point froms tos part0 = Inr (True, r)"
  shows "\<exists>f\<in>set froms. \<exists>t\<in>set tos.
           ConnectAdjacentCandidateLines g f t (m_functionalRoadClass point)
               (m_distanceToNextPoint point) [] = Inr (True, r)
           \<and> ValidatePath g r (m_distanceToNextPoint point) tol"
proof -
  let ?Q = "\<lambda>r. \<exists>f\<in>set froms. \<exists>t\<in>set tos.
           ConnectAdjacentCandidateLines g f t (m_functionalRoadClass point)
               (m_distanceToNextPoint point) [] = Inr (True, r)
           \<and> ValidatePath g r (m_distanceToNextPoint point) tol"
  from assms obtain found part fake
    where l: "fromLoop g tol (m_functionalRoadClass point) (m_distanceToNextPoint point)
                froms tos (False, part0, []) = Inr (found, part, fake)"
      and r: "(if fake \<noteq> [] \<and> \<not> found then (True, fake) else (found, part)) = (True, r)"
    by (auto simp: connectSegment_def split: sum.splits if_splits)
  have "(fst (found, part, fake) \<longrightarrow> ?Q (fst (snd (found, part, fake))))
      \<and> (snd (snd (found, part, fake)) \<noteq> [] \<longrightarrow> ?Q (snd (snd (found, part, fake))))"
    by (rule fromLoop_keeps [OF l]) auto
  with r show ?thesis by (auto split: if_splits)
qed

subsection \<open>The loop over the segments\<close>

lemma segmentLoop_True:
  assumes "segmentLoop g tol points lc is rp st = Inr (True, res, st')"
    and "distinct is" and "\<forall>i\<in>set is. 0 < i \<and> i \<le> length rp"
  shows "length res = length rp \<and> st' = st
         \<and> (\<forall>j<length rp. Suc j \<notin> set is \<longrightarrow> res ! j = rp ! j)
         \<and> (\<forall>i\<in>set is. i < length lc
               \<and> (\<exists>part0. connectSegment g tol (points ! (i - 1)) (lc ! (i - 1)) (lc ! i) part0
                     = Inr (True, res ! (i - 1))))"
  using assms
proof (induction "is" arbitrary: rp)
  case Nil
  then show ?case by simp
next
  case (Cons i "is")
  from Cons.prems(1) have il: "i < length lc" by (auto split: if_splits)
  from Cons.prems(1) il obtain part
    where c: "connectSegment g tol (points ! (i - 1)) (lc ! (i - 1)) (lc ! i) (rp ! (i - 1))
                = Inr (True, part)"
      and r: "segmentLoop g tol points lc is (rp[i - 1 := part]) st = Inr (True, res, st')"
    by (auto split: sum.splits if_splits)
  from Cons.prems(2,3) have d: "distinct is" and b: "\<forall>k\<in>set is. 0 < k \<and> k \<le> length (rp[i - 1 := part])"
    and i: "0 < i" "i \<le> length rp" "i \<notin> set is" by simp_all
  from Cons.IH [OF r d b]
  have ih: "length res = length rp" "st' = st"
    "\<forall>j<length rp. Suc j \<notin> set is \<longrightarrow> res ! j = rp[i - 1 := part] ! j"
    "\<forall>k\<in>set is. k < length lc
       \<and> (\<exists>part0. connectSegment g tol (points ! (k - 1)) (lc ! (k - 1)) (lc ! k) part0
             = Inr (True, res ! (k - 1)))"
    by simp_all
  have "res ! (i - 1) = part" using ih(3) i by simp
  with c have 1: "\<exists>part0. connectSegment g tol (points ! (i - 1)) (lc ! (i - 1)) (lc ! i) part0
                     = Inr (True, res ! (i - 1))" by blast
  have 2: "\<forall>j<length rp. Suc j \<notin> set (i # is) \<longrightarrow> res ! j = rp ! j"
  proof (intro allI impI)
    fix j assume j: "j < length rp" "Suc j \<notin> set (i # is)"
    then have "j \<noteq> i - 1" using i by auto
    with ih(3) j show "res ! j = rp ! j" by simp
  qed
  from ih(1,2,4) il 1 2 show ?case by simp
qed

lemma segmentLoop_False:
  assumes "distinct (js @ [i])"
    and "\<forall>j\<in>set js. 0 < j \<and> j \<le> length rp \<and> j < length lc
           \<and> (\<exists>r. connectSegment g tol (points ! (j - 1)) (lc ! (j - 1)) (lc ! j) (rp ! (j - 1))
                  = Inr (True, r))"
    and "0 < i" "i \<le> length rp" "i < length lc"
    and "connectSegment g tol (points ! (i - 1)) (lc ! (i - 1)) (lc ! i) (rp ! (i - 1))
           = Inr (False, part)"
  shows "\<exists>res. segmentLoop g tol points lc (js @ i # ks) rp st
             = Inr (False, res, st\<lparr>m_noShortestPathFound := m_noShortestPathFound st + 1\<rparr>)
           \<and> length res = length rp \<and> res ! (i - 1) = []
           \<and> (\<forall>j<length rp. Suc j \<notin> set js \<and> Suc j \<noteq> i \<longrightarrow> res ! j = rp ! j)
           \<and> (\<forall>j\<in>set js. connectSegment g tol (points ! (j - 1)) (lc ! (j - 1)) (lc ! j)
                 (rp ! (j - 1)) = Inr (True, res ! (j - 1)))"
  using assms
proof (induction js arbitrary: rp)
  case Nil
  then show ?case by simp
next
  case (Cons j js)
  from Cons.prems(2) obtain r
    where j: "0 < j" "j \<le> length rp" "j < length lc"
      and c: "connectSegment g tol (points ! (j - 1)) (lc ! (j - 1)) (lc ! j) (rp ! (j - 1))
                = Inr (True, r)" by auto
  let ?rp = "rp[j - 1 := r]"
  from Cons.prems(1) have d: "distinct (js @ [i])" and nj: "j \<notin> set js" "j \<noteq> i" by auto
  have same: "\<And>k. 0 < k \<Longrightarrow> k \<noteq> j \<Longrightarrow> ?rp ! (k - 1) = rp ! (k - 1)"
    using j(1) by (auto simp: nth_list_update)
  have p2: "\<forall>k\<in>set js. 0 < k \<and> k \<le> length ?rp \<and> k < length lc
           \<and> (\<exists>r. connectSegment g tol (points ! (k - 1)) (lc ! (k - 1)) (lc ! k) (?rp ! (k - 1))
                  = Inr (True, r))"
  proof
    fix k assume k: "k \<in> set js"
    with Cons.prems(2) have "0 < k" "k \<noteq> j" using nj by auto
    with same [of k] Cons.prems(2) k show "0 < k \<and> k \<le> length ?rp \<and> k < length lc
           \<and> (\<exists>r. connectSegment g tol (points ! (k - 1)) (lc ! (k - 1)) (lc ! k) (?rp ! (k - 1))
                  = Inr (True, r))" by simp
  qed
  have p6: "connectSegment g tol (points ! (i - 1)) (lc ! (i - 1)) (lc ! i) (?rp ! (i - 1))
           = Inr (False, part)"
    using same [of i] Cons.prems(3,6) nj by simp
  from Cons.IH [OF d p2 Cons.prems(3) _ Cons.prems(5) p6] Cons.prems(4)
  obtain res where res: "segmentLoop g tol points lc (js @ i # ks) ?rp st
             = Inr (False, res, st\<lparr>m_noShortestPathFound := m_noShortestPathFound st + 1\<rparr>)"
      "length res = length rp" "res ! (i - 1) = []"
      "\<forall>k<length rp. Suc k \<notin> set js \<and> Suc k \<noteq> i \<longrightarrow> res ! k = ?rp ! k"
      "\<forall>k\<in>set js. connectSegment g tol (points ! (k - 1)) (lc ! (k - 1)) (lc ! k)
                 (?rp ! (k - 1)) = Inr (True, res ! (k - 1))"
    by auto
  have 1: "segmentLoop g tol points lc ((j # js) @ i # ks) rp st
             = Inr (False, res, st\<lparr>m_noShortestPathFound := m_noShortestPathFound st + 1\<rparr>)"
    using j c res(1) by simp
  have 4: "\<forall>k<length rp. Suc k \<notin> set (j # js) \<and> Suc k \<noteq> i \<longrightarrow> res ! k = rp ! k"
  proof (intro allI impI)
    fix k assume k: "k < length rp" "Suc k \<notin> set (j # js) \<and> Suc k \<noteq> i"
    then have "k \<noteq> j - 1" using j(1) by auto
    with res(4) k show "res ! k = rp ! k" by simp
  qed
  have "res ! (j - 1) = r" using res(4) j nj by (auto simp: nth_list_update)
  with c have 5: "connectSegment g tol (points ! (j - 1)) (lc ! (j - 1)) (lc ! j)
                 (rp ! (j - 1)) = Inr (True, res ! (j - 1))" by simp
  have 6: "\<forall>k\<in>set js. connectSegment g tol (points ! (k - 1)) (lc ! (k - 1)) (lc ! k)
                 (rp ! (k - 1)) = Inr (True, res ! (k - 1))"
  proof
    fix k assume k: "k \<in> set js"
    with p2 have "0 < k" "k \<noteq> j" using nj by auto
    then have "?rp ! (k - 1) = rp ! (k - 1)" by (rule same)
    moreover from res(5) k have "connectSegment g tol (points ! (k - 1)) (lc ! (k - 1)) (lc ! k)
                 (?rp ! (k - 1)) = Inr (True, res ! (k - 1))" by blast
    ultimately show "connectSegment g tol (points ! (k - 1)) (lc ! (k - 1)) (lc ! k)
                 (rp ! (k - 1)) = Inr (True, res ! (k - 1))" by simp
  qed
  from 1 res(2,3) 4 5 6 show ?case by auto
qed

lemma lrp_simps [simp]: "m_distanceToNextPoint (lrp d) = d" "m_functionalRoadClass (lrp d) = ()"
  by (simp_all add: lrp_def)

lemma g_fake_simps:
  "IsFake g_fake e = (e = 2 \<or> e = 3)" "EdgeLength g_fake e = 50"
  by (simp_all add: g_fake_def)

lemma g_chain_simps:
  "IsFake g_chain e = False" "EdgeLength g_chain e = 10"
  by (simp_all add: g_chain_def)

lemma g_uturn_simps:
  "IsFake g_uturn e = False" "EdgeLength g_uturn e = 10"
  by (simp_all add: g_uturn_def)

lemmas validate_eval = ValidatePath_def AbsDifference_def Let_def

lemmas candidates_eval = ConnectCandidates_def resize_def connectSegment_def

subsection \<open>Duplicate edges in the segments\<close>

lemma connect_True_distinct:
  assumes "distinct f" "distinct t"
    and "ConnectAdjacentCandidateLines g f t frc d [] = Inr (True, r)"
  shows "(\<exists>k>0. clean_overlap f t k \<and> distinct r)
       \<or> (clean_overlap f t 0
          \<and> (\<exists>P. FindShortestPath g (last f) (hd t) frc d [] = Inr (True, P)
                 \<and> r = butlast f @ P @ tl t \<and> distinct P \<and> distinct (butlast f @ tl t)
                 \<and> (distinct r \<longleftrightarrow> set P \<inter> (set (butlast f) \<union> set (tl t)) = {})))"
proof -
  from assms(3) have t: "t \<noteq> []" by (auto simp: ConnectAdjacentCandidateLines_def split: if_splits)
  from PathOverlappingLen_cases [OF assms(1,2)]
  show ?thesis
  proof
    assume "\<exists>k. clean_overlap f t k \<and> PathOverlappingLen f t = Inr (int k)"
    then obtain k where k: "clean_overlap f t k" "PathOverlappingLen f t = Inr (int k)" by blast
    show ?thesis
    proof (cases "k = 0")
      case False
      with assms(3) t k(2) have "r = f @ drop k t"
        by (simp add: ConnectAdjacentCandidateLines_def)
      moreover have "set f \<inter> set (drop k t) = {}"
        using assms(2) k(1) by (rule clean_overlap_disjoint_tail)
      ultimately have "distinct r" using assms(1,2) by simp
      with False k(1) show ?thesis by blast
    next
      case True
      with k have k0: "clean_overlap f t 0" "PathOverlappingLen f t = Inr 0" by simp_all
      from assms(3) t k0(2) have f: "f \<noteq> []"
        by (auto simp: ConnectAdjacentCandidateLines_def split: if_splits)
      from assms(3) t k0(2) f obtain P
        where P: "FindShortestPath g (last f) (hd t) frc d [] = Inr (True, P)"
          and r: "r = butlast f @ P @ tl t"
        by (auto simp: ConnectAdjacentCandidateLines_def split: if_splits sum.splits)
      from FindShortestPath_True [OF P] have dP: "distinct P" by simp
      from k0(1) have dj: "set f \<inter> set t = {}" by (simp add: clean_overlap_def)
      have "set (butlast f) \<subseteq> set f" "set (tl t) \<subseteq> set t"
        using t by (auto dest: in_set_butlastD list.set_sel(2))
      with dj have dj': "set (butlast f) \<inter> set (tl t) = {}" by blast
      have dft: "distinct (butlast f @ tl t)"
        using assms(1,2) dj' by (simp add: distinct_butlast distinct_tl)
      have "distinct r \<longleftrightarrow> set P \<inter> (set (butlast f) \<union> set (tl t)) = {}"
        using r dP dft by auto
      with k0(1) P r dP dft show ?thesis by blast
    qed
  next
    assume "(\<forall>k. \<not> clean_overlap f t k) \<and> PathOverlappingLen f t = Inr (- 1)"
    with assms(3) t show ?thesis by (simp add: ConnectAdjacentCandidateLines_def)
  qed
qed

text \<open>
  Claim C8, as the code has it. After a successful \<open>ConnectCandidates\<close> on duplicate-free
  candidates, every returned segment is the connection of a candidate of its first point
  with a candidate of its second point. When the two overlap (overlap splice), the segment
  has no edge twice. When they share no edge (search splice), the segment is \<open>from\<close>
  without its last edge, the found sub-path \<open>P\<close> and \<open>to\<close> without its first edge, where
  \<open>P\<close> has no edge twice and the rest has no edge twice; the segment has no edge twice
  exactly when \<open>P\<close> shares no edge with the rest, which the code does not check.
\<close>

theorem ConnectCandidates_segments_duplicates:
  assumes "ConnectCandidates g tol points lineCandidates resultPath stat = Inr (True, res, stat')"
    and "\<forall>cs\<in>set lineCandidates. \<forall>c\<in>set cs. distinct c"
  shows "\<forall>i<length res. \<exists>f\<in>set (lineCandidates ! i). \<exists>t\<in>set (lineCandidates ! Suc i).
           ConnectAdjacentCandidateLines g f t (m_functionalRoadClass (points ! i))
               (m_distanceToNextPoint (points ! i)) [] = Inr (True, res ! i)
           \<and> ((\<exists>k>0. clean_overlap f t k \<and> distinct (res ! i))
              \<or> (clean_overlap f t 0
                 \<and> (\<exists>P. FindShortestPath g (last f) (hd t) (m_functionalRoadClass (points ! i))
                            (m_distanceToNextPoint (points ! i)) [] = Inr (True, P)
                        \<and> res ! i = butlast f @ P @ tl t
                        \<and> distinct P \<and> distinct (butlast f @ tl t)
                        \<and> (distinct (res ! i)
                             \<longleftrightarrow> set P \<inter> (set (butlast f) \<union> set (tl t)) = {}))))"
proof (intro allI impI)
  fix i assume i: "i < length res"
  let ?n = "length points"
  from assms(1) have ne: "points \<noteq> []"
    and sl: "segmentLoop g tol points lineCandidates [1..<?n] (resize (?n - 1) resultPath) stat
               = Inr (True, res, stat')"
    by (auto simp: ConnectCandidates_def split: if_splits)
  have len: "length (resize (?n - 1) resultPath) = ?n - 1" by (simp add: resize_def)
  have "\<forall>k\<in>set [1..<?n]. 0 < k \<and> k \<le> length (resize (?n - 1) resultPath)"
    using len by auto
  from segmentLoop_True [OF sl _ this]
  have lr: "length res = ?n - 1"
    and all: "\<forall>k\<in>set [1..<?n]. k < length lineCandidates
               \<and> (\<exists>part0. connectSegment g tol (points ! (k - 1)) (lineCandidates ! (k - 1))
                     (lineCandidates ! k) part0 = Inr (True, res ! (k - 1)))"
    using len by simp_all
  from i lr have "Suc i \<in> set [1..<?n]" by auto
  with all obtain part0 where il: "Suc i < length lineCandidates"
    and cs: "connectSegment g tol (points ! i) (lineCandidates ! i) (lineCandidates ! Suc i) part0
               = Inr (True, res ! i)" by fastforce
  from connectSegment_True [OF cs] obtain f t
    where f: "f \<in> set (lineCandidates ! i)" and t: "t \<in> set (lineCandidates ! Suc i)"
      and c: "ConnectAdjacentCandidateLines g f t (m_functionalRoadClass (points ! i))
               (m_distanceToNextPoint (points ! i)) [] = Inr (True, res ! i)" by blast
  have "lineCandidates ! i \<in> set lineCandidates" "lineCandidates ! Suc i \<in> set lineCandidates"
    using il by simp_all
  with assms(2) f t have "distinct f" "distinct t" by blast+
  from connect_True_distinct [OF this c] f t c
  show "\<exists>f\<in>set (lineCandidates ! i). \<exists>t\<in>set (lineCandidates ! Suc i).
           ConnectAdjacentCandidateLines g f t (m_functionalRoadClass (points ! i))
               (m_distanceToNextPoint (points ! i)) [] = Inr (True, res ! i)
           \<and> ((\<exists>k>0. clean_overlap f t k \<and> distinct (res ! i))
              \<or> (clean_overlap f t 0
                 \<and> (\<exists>P. FindShortestPath g (last f) (hd t) (m_functionalRoadClass (points ! i))
                            (m_distanceToNextPoint (points ! i)) [] = Inr (True, P)
                        \<and> res ! i = butlast f @ P @ tl t
                        \<and> distinct P \<and> distinct (butlast f @ tl t)
                        \<and> (distinct (res ! i)
                             \<longleftrightarrow> set P \<inter> (set (butlast f) \<union> set (tl t)) = {}))))"
    by blast
qed

subsection \<open>A segment without a path\<close>

text \<open>
  Claim C7, as the code has it. When segment \<open>i\<close> is the first segment without an accepted
  path, \<open>ConnectCandidates\<close> returns false, whatever the later segments are: they are not
  attempted. The counter \<open>m_noShortestPathFound\<close> has grown by exactly one, the slot of
  segment \<open>i\<close> is empty and the later slots are as \<^verbatim>\<open>resize\<close> left them. The slots of
  the earlier segments hold the paths accepted for them: \<open>resultPath\<close> is not cleared.
\<close>

theorem ConnectCandidates_segment_without_path:
  assumes "rp0 = resize (length points - 1) resultPath"
    and "0 < i" "i < length points" "i < length lineCandidates"
    and "\<forall>j. 0 < j \<and> j < i \<longrightarrow>
           (\<exists>r. connectSegment g tol (points ! (j - 1)) (lineCandidates ! (j - 1))
                  (lineCandidates ! j) (rp0 ! (j - 1)) = Inr (True, r))"
    and "connectSegment g tol (points ! (i - 1)) (lineCandidates ! (i - 1))
           (lineCandidates ! i) (rp0 ! (i - 1)) = Inr (False, part)"
  shows "\<exists>res. ConnectCandidates g tol points lineCandidates resultPath stat
             = Inr (False, res, stat\<lparr>m_noShortestPathFound := m_noShortestPathFound stat + 1\<rparr>)
           \<and> length res = length points - 1
           \<and> res ! (i - 1) = []
           \<and> (\<forall>j. i \<le> j \<and> j < length res \<longrightarrow> res ! j = rp0 ! j)
           \<and> (\<forall>j. 0 < j \<and> j < i \<longrightarrow>
                 connectSegment g tol (points ! (j - 1)) (lineCandidates ! (j - 1))
                   (lineCandidates ! j) (rp0 ! (j - 1)) = Inr (True, res ! (j - 1)))"
proof -
  let ?n = "length points"
  have len: "length rp0 = ?n - 1" using assms(1) by (simp add: resize_def)
  have split: "[1..<?n] = [1..<i] @ i # [Suc i..<?n]"
  proof -
    have "[1..<?n] = [1..<i] @ [i..<?n]"
      using upt_add_eq_append [of 1 i "?n - i"] assms(2,3) by simp
    also have "[i..<?n] = i # [Suc i..<?n]" using assms(3) by (rule upt_conv_Cons)
    finally show ?thesis .
  qed
  have d: "distinct ([1..<i] @ [i])" by simp
  have p2: "\<forall>j\<in>set [1..<i]. 0 < j \<and> j \<le> length rp0 \<and> j < length lineCandidates
           \<and> (\<exists>r. connectSegment g tol (points ! (j - 1)) (lineCandidates ! (j - 1))
                  (lineCandidates ! j) (rp0 ! (j - 1)) = Inr (True, r))"
    using assms(3,4,5) len by auto
  have p4: "i \<le> length rp0" using assms(3) len by simp
  from segmentLoop_False [OF d p2 assms(2) p4 assms(4,6), of "[Suc i..<?n]" stat]
  obtain res where res: "segmentLoop g tol points lineCandidates ([1..<i] @ i # [Suc i..<?n]) rp0 stat
             = Inr (False, res, stat\<lparr>m_noShortestPathFound := m_noShortestPathFound stat + 1\<rparr>)"
    "length res = length rp0" "res ! (i - 1) = []"
    "\<forall>j<length rp0. Suc j \<notin> set [1..<i] \<and> Suc j \<noteq> i \<longrightarrow> res ! j = rp0 ! j"
    "\<forall>j\<in>set [1..<i]. connectSegment g tol (points ! (j - 1)) (lineCandidates ! (j - 1))
        (lineCandidates ! j) (rp0 ! (j - 1)) = Inr (True, res ! (j - 1))"
    by blast
  have 1: "ConnectCandidates g tol points lineCandidates resultPath stat
             = Inr (False, res, stat\<lparr>m_noShortestPathFound := m_noShortestPathFound stat + 1\<rparr>)"
    using res(1) split assms(1,3) by (auto simp: ConnectCandidates_def)
  have 4: "\<forall>j. i \<le> j \<and> j < length res \<longrightarrow> res ! j = rp0 ! j"
    using res(2,4) by auto
  have 5: "\<forall>j. 0 < j \<and> j < i \<longrightarrow>
                 connectSegment g tol (points ! (j - 1)) (lineCandidates ! (j - 1))
                   (lineCandidates ! j) (rp0 ! (j - 1)) = Inr (True, res ! (j - 1))"
    using res(5) by auto
  from 1 res(2,3) len 4 5 show ?thesis by auto
qed

subsection \<open>Concrete runs\<close>

lemma run_uturn_2_1: "FindShortestPath g_uturn 2 1 () 100 [] = Inr (True, [2, 1])"
  by (simp add: search_eval g_uturn_def)

lemma run_uturn_2_3: "FindShortestPath g_uturn 2 3 () 40 [] = Inr (True, [2, 1, 3])"
  by (simp add: search_eval g_uturn_def)

lemma run_chain_2_4: "FindShortestPath g_chain 2 4 () 50 [] = Inr (True, [2, 3, 4])"
  by (simp add: search_eval g_chain_def)

lemma run_chain_3_7: "FindShortestPath g_chain 3 7 () 30 [] = Inr (False, [])"
  by (simp add: search_eval g_chain_def)

lemma connect_uturn: "ConnectAdjacentCandidateLines g_uturn [1, 2] [3] () 40 [] = Inr (True, [1, 2, 1, 3])"
  by (simp add: connect_eval run_uturn_2_3)

lemma connect_chain_overlap:
  "ConnectAdjacentCandidateLines g_chain [1, 2] [2, 3] () 30 [] = Inr (True, [1, 2, 3])"
  by (simp add: connect_eval)

lemma connect_chain_none:
  "ConnectAdjacentCandidateLines g_chain [2, 3] [7] () 30 [] = Inr (False, [])"
  by (simp add: connect_eval run_chain_3_7)

lemma segment_chain_1:
  "connectSegment g_chain (3 / 10) (lrp 30) [[1, 2]] [[2, 3]] [] = Inr (True, [1, 2, 3])"
  by (simp add: connectSegment_def connect_chain_overlap validate_eval g_chain_simps)

lemma segment_chain_2:
  "connectSegment g_chain (3 / 10) (lrp 30) [[2, 3]] [[7]] [] = Inr (False, [])"
  by (simp add: connectSegment_def connect_chain_none)

text \<open>
  Claim C2 as stated fails: \<open>[1, 2]\<close> and \<open>[1, 3]\<close> share the edge 1, which is neither
  the end of the first nor, with it, a clean overlap; the search from edge 2 to edge 1
  succeeds, and the connection still fails.
\<close>

theorem ConnectAdjacentCandidateLines_invalid_overlap_counterexample:
  "distinct [1, 2 :: int] \<and> distinct [1, 3 :: int] \<and> set [1, 2 :: int] \<inter> set [1, 3] \<noteq> {}
   \<and> \<not> clean_overlap [1, 2 :: int] [1, 3] 0 \<and> \<not> clean_overlap [1, 2 :: int] [1, 3] 1
   \<and> \<not> clean_overlap [1, 2 :: int] [1, 3] 2
   \<and> FindShortestPath g_uturn (last [1, 2]) (hd [1, 3]) () 100 [] = Inr (True, [2, 1])
   \<and> ConnectAdjacentCandidateLines g_uturn [1, 2] [1, 3] () 100 [] = Inr (False, [])"
  by (simp add: clean_overlap_def run_uturn_2_1 connect_eval)

lemma no_clean_overlap_12_13: "\<forall>k. \<not> clean_overlap [1, 2 :: int] [1, 3] k"
proof (intro allI notI)
  fix k assume c: "clean_overlap [1, 2 :: int] [1, 3] k"
  then have "k \<le> 2" by (simp add: clean_overlap_def)
  then consider "k = 0" | "k = 1" | "k = 2" by linarith
  then show False using c by cases (simp_all add: clean_overlap_def)
qed

theorem ConnectAdjacentCandidateLines_invalid_overlap_witness:
  "distinct [1, 2 :: int] \<and> distinct [1, 3 :: int] \<and> set [1, 2 :: int] \<inter> set [1, 3] \<noteq> {}
   \<and> (\<forall>k. \<not> clean_overlap [1, 2 :: int] [1, 3] k)
   \<and> ConnectAdjacentCandidateLines g_uturn [1, 2] [1, 3] () 100 [] = Inr (False, [])"
proof -
  have h: "distinct [1, 2 :: int]" "distinct [1, 3 :: int]" "set [1, 2 :: int] \<inter> set [1, 3] \<noteq> {}"
    by simp_all
  show ?thesis
    using h no_clean_overlap_12_13
      ConnectAdjacentCandidateLines_invalid_overlap [OF h no_clean_overlap_12_13, of g_uturn "()" 100 "[]"]
    by simp
qed

text \<open>The search splice on a chain of edges: \<open>[1, 2]\<close> and \<open>[4, 5]\<close> are joined through edge 3.\<close>

theorem ConnectAdjacentCandidateLines_search_splice_witness:
  "distinct [1, 2 :: int] \<and> distinct [4, 5 :: int] \<and> [1, 2 :: int] \<noteq> [] \<and> [4, 5 :: int] \<noteq> []
   \<and> set [1, 2 :: int] \<inter> set [4, 5] = {}
   \<and> FindShortestPath g_chain (last [1, 2]) (hd [4, 5]) () 50 [] = Inr (True, [2, 3, 4])
   \<and> ConnectAdjacentCandidateLines g_chain [1, 2] [4, 5] () 50 [] = Inr (True, [1, 2, 3, 4, 5])
   \<and> count_list [1, 2, 3, 4, 5 :: int] 2 = 1 \<and> count_list [1, 2, 3, 4, 5 :: int] 4 = 1"
proof -
  have h: "distinct [1, 2 :: int]" "distinct [4, 5 :: int]" "[1, 2 :: int] \<noteq> []" "[4, 5 :: int] \<noteq> []"
    "set [1, 2 :: int] \<inter> set [4, 5] = {}"
    "FindShortestPath g_chain (last [1, 2]) (hd [4, 5]) () 50 [] = Inr (True, [2, 3, 4])"
    by (simp_all add: run_chain_2_4)
  show ?thesis
    using h ConnectAdjacentCandidateLines_search_splice [OF h] by simp
qed

text \<open>The road class and the single point, on the chain of edges.\<close>

theorem FindShortestPath_ignores_frc_witness:
  "FindShortestPath g_chain 2 4 (0 :: nat) 50 [] = FindShortestPath g_chain 2 4 (7 :: nat) 50 []"
  by (rule FindShortestPath_ignores_frc)

theorem ConnectCandidates_single_point_witness:
  "ConnectCandidates g_chain (3 / 10) [lrp 30] [[[1, 2]]] [[9]] no_stats = Inr (True, [], no_stats)"
  by (rule ConnectCandidates_single_point)

text \<open>Two fake paths in a row.\<close>

lemma connect_fake:
  "ConnectAdjacentCandidateLines g_fake [1] [1, 2] () 100 [] = Inr (True, [1, 2])"
  "ConnectAdjacentCandidateLines g_fake [1] [1, 3] () 100 [] = Inr (True, [1, 3])"
  "ConnectAdjacentCandidateLines g_fake [1] [1, 4] () 100 [] = Inr (True, [1, 4])"
  by (simp_all add: connect_eval)

lemma validate_fake:
  "ValidatePath g_fake [1, 2] 100 (3 / 10)" "ValidatePath g_fake [1, 3] 100 (3 / 10)"
  "ValidatePath g_fake [1, 4] 100 (3 / 10)"
  by (simp_all add: validate_eval g_fake_simps)

text \<open>
  Claim C3, on a concrete segment. The candidates of the second point yield, in this order,
  the validated paths \<open>[1, 2]\<close> and \<open>[1, 3]\<close>, whose last edges are fake, and \<open>[1, 4]\<close>, which
  has no fake edge. The first fake path is put aside; the second one is accepted at once,
  although a candidate pair remains, and is the result of the segment, where the claim
  expects \<open>[1, 4]\<close>. With the first two candidates only, the result is the second fake
  path again, where the claim expects the first one, \<open>[1, 2]\<close>.
\<close>

theorem ConnectCandidates_second_fake_path_accepted:
  "connectSegment g_fake (3 / 10) (lrp 100) [[1]] [[1, 2]] [] = Inr (True, [1, 2])
   \<and> connectSegment g_fake (3 / 10) (lrp 100) [[1]] [[1, 3]] [] = Inr (True, [1, 3])
   \<and> connectSegment g_fake (3 / 10) (lrp 100) [[1]] [[1, 4]] [] = Inr (True, [1, 4])
   \<and> IsFake g_fake (last [1, 2]) \<and> IsFake g_fake (last [1, 3])
   \<and> \<not> IsFake g_fake (hd [1, 4]) \<and> \<not> IsFake g_fake (last [1, 4])
   \<and> ConnectCandidates g_fake (3 / 10) [lrp 100, lrp 0] [[[1]], [[1, 2], [1, 3], [1, 4]]] [] no_stats
       = Inr (True, [[1, 3]], no_stats)
   \<and> ConnectCandidates g_fake (3 / 10) [lrp 100, lrp 0] [[[1]], [[1, 2], [1, 3]]] [] no_stats
       = Inr (True, [[1, 3]], no_stats)"
  by (simp add: candidates_eval connect_fake validate_fake g_fake_simps)

text \<open>
  Claim C7 as stated fails: with three points, the first segment connects and the second
  does not; the call returns false and \<open>resultPath\<close> still holds the path of the first
  segment.
\<close>

theorem ConnectCandidates_segment_without_path_counterexample:
  "ConnectCandidates g_chain (3 / 10) [lrp 30, lrp 30, lrp 0] [[[1, 2]], [[2, 3]], [[7]]] [] no_stats
     = Inr (False, [[1, 2, 3], []], \<lparr>m_noShortestPathFound = 1\<rparr>)"
  by (simp add: candidates_eval connect_chain_overlap connect_chain_none validate_eval
      g_chain_simps no_stats_def)

theorem ConnectCandidates_segment_without_path_witness:
  "(\<exists>r. connectSegment g_chain (3 / 10) (lrp 30) [[1, 2]] [[2, 3]] [] = Inr (True, r))
   \<and> connectSegment g_chain (3 / 10) (lrp 30) [[2, 3]] [[7]] [] = Inr (False, [])
   \<and> (\<exists>res. ConnectCandidates g_chain (3 / 10) [lrp 30, lrp 30, lrp 0]
               [[[1, 2]], [[2, 3]], [[7]]] [] no_stats
             = Inr (False, res, no_stats\<lparr>m_noShortestPathFound := m_noShortestPathFound no_stats + 1\<rparr>)
           \<and> length res = 2 \<and> res ! 1 = [] \<and> res ! 0 = [1, 2, 3])"
proof -
  let ?points = "[lrp 30, lrp 30, lrp 0]" and ?lc = "[[[1, 2]], [[2, 3]], [[7 :: int]]]"
  have h1: "[[], []] = resize (length ?points - 1) ([] :: int list list)"
    by (simp add: resize_def)
  have h2: "(0::nat) < 2" "2 < length ?points" "2 < length ?lc" by simp_all
  have h5: "\<forall>j. 0 < j \<and> j < (2::nat) \<longrightarrow>
           (\<exists>r. connectSegment g_chain (3 / 10) (?points ! (j - 1)) (?lc ! (j - 1))
                  (?lc ! j) ([[], []] ! (j - 1)) = Inr (True, r))"
  proof (intro allI impI)
    fix j :: nat assume "0 < j \<and> j < 2"
    then have "j = 1" by simp
    then show "\<exists>r. connectSegment g_chain (3 / 10) (?points ! (j - 1)) (?lc ! (j - 1))
                  (?lc ! j) ([[], []] ! (j - 1)) = Inr (True, r)"
      using segment_chain_1 by simp
  qed
  have h6: "connectSegment g_chain (3 / 10) (?points ! (2 - 1)) (?lc ! (2 - 1))
           (?lc ! 2) ([[], []] ! (2 - 1)) = Inr (False, [])"
    using segment_chain_2 by simp
  from ConnectCandidates_segment_without_path [OF h1 h2 h5 h6, of no_stats]
  obtain res where res: "ConnectCandidates g_chain (3 / 10) ?points ?lc [] no_stats
             = Inr (False, res, no_stats\<lparr>m_noShortestPathFound := m_noShortestPathFound no_stats + 1\<rparr>)"
    "length res = 2" "res ! 1 = []"
    "connectSegment g_chain (3 / 10) (lrp 30) [[1, 2]] [[2, 3]] [] = Inr (True, res ! 0)"
    by force
  from res(4) segment_chain_1 have "res ! 0 = [1, 2, 3]" by simp
  with res(1,2,3) segment_chain_1 segment_chain_2 show ?thesis by blast
qed

text \<open>
  Claim C8 as stated fails: the shortest path from edge 2 to edge 3 leads back through
  edge 1, and the accepted segment \<open>[1, 2, 1, 3]\<close> holds edge 1 twice.
\<close>

theorem ConnectCandidates_segments_duplicates_counterexample:
  "distinct [1, 2 :: int] \<and> distinct [3 :: int]
   \<and> ConnectCandidates g_uturn (3 / 10) [lrp 40, lrp 0] [[[1, 2]], [[3]]] [] no_stats
       = Inr (True, [[1, 2, 1, 3]], no_stats)
   \<and> \<not> distinct [1, 2, 1, 3 :: int]"
  by (simp add: candidates_eval connect_uturn validate_eval g_uturn_simps)

lemma run_overlap_chain:
  "ConnectCandidates g_chain (3 / 10) [lrp 30, lrp 0] [[[1, 2]], [[2, 3]]] [] no_stats
       = Inr (True, [[1, 2, 3]], no_stats)"
  by (simp add: candidates_eval connect_chain_overlap validate_eval g_chain_simps)

theorem ConnectCandidates_segments_duplicates_witness:
  "ConnectCandidates g_chain (3 / 10) [lrp 30, lrp 0] [[[1, 2]], [[2, 3]]] [] no_stats
       = Inr (True, [[1, 2, 3]], no_stats)
   \<and> distinct [1, 2 :: int] \<and> distinct [2, 3 :: int]
   \<and> (\<exists>k. 0 < k \<and> clean_overlap [1, 2 :: int] [2, 3] k) \<and> distinct [1, 2, 3 :: int]"
proof -
  have h2: "\<forall>cs\<in>set [[[1, 2]], [[2, 3 :: int]]]. \<forall>c\<in>set cs. distinct c" by simp
  have "\<not> clean_overlap [1, 2 :: int] [2, 3] 0" by (simp add: clean_overlap_def)
  with ConnectCandidates_segments_duplicates [OF run_overlap_chain h2]
  have "\<exists>k>0. clean_overlap [1, 2 :: int] [2, 3] k \<and> distinct [1, 2, 3 :: int]" by simp
  with run_overlap_chain show ?thesis by auto
qed

subsection \<open>The priority queue\<close>

lemma q_top_in: "q \<noteq> [] \<Longrightarrow> q_top q \<in> set q"
  by (induction q rule: q_top.induct) (auto simp: Let_def)

lemma q_top_least: "x \<in> set q \<Longrightarrow> m_score (q_top q) \<le> m_score x"
proof (induction q rule: q_top.induct)
  case 1
  then show ?case by simp
next
  case (2 x)
  then show ?case by simp
next
  case (3 y z zs)
  then show ?case by (auto simp: Let_def operator_gt_def)
qed

lemma length_q_pop: "q \<noteq> [] \<Longrightarrow> length (q_pop q) < length q"
proof -
  assume "q \<noteq> []"
  then have "q_top q \<in> set q" by (rule q_top_in)
  then have "length (q_pop q) = length q - 1" by (simp add: q_pop_def length_remove1)
  with \<open>q \<noteq> []\<close> show ?thesis by (cases q) simp_all
qed

lemma set_q_pop: "set (q_pop q) \<subseteq> set q"
  by (simp add: q_pop_def set_remove1_subset)

lemma in_q_pop: "x \<in> set q \<Longrightarrow> x \<noteq> q_top q \<Longrightarrow> x \<in> set (q_pop q)"
  by (simp add: q_pop_def)

subsection \<open>Scores that do not wrap around\<close>

lemma budget_unat:
  assumes "unat maxPathLength + 10 < (2::nat) ^ 32"
  shows "unat (maxPathLength + kLengthToleranceM) = unat maxPathLength + 10"
  using assms by (simp add: kLengthToleranceM_def unat_word_ariths)

lemma to_uint32_nat: "to_uint32 (real n) = of_nat n"
  by (simp add: to_uint32_def)

lemma unat_score:
  assumes "n < (2::nat) ^ 32"
  shows "unat (of_nat n :: uint32_t) = n"
  using assms by (simp add: unat_of_nat)

lemma relax_cases:
  assumes "search_graph g E maxPathLength" "e \<in> E" "unat us \<le> unat maxPathLength + 10"
  shows "relax g u us e (q, scores, links) =
           (if (case scores e of None \<Rightarrow> True | Some s \<Rightarrow> unat us + ilen g e < unat s)
            then (\<lparr>m_edge = e, m_score = of_nat (unat us + ilen g e)\<rparr> # q,
                  scores(e \<mapsto> of_nat (unat us + ilen g e)), links(e \<mapsto> u))
            else (q, scores, links))"
    and "unat (of_nat (unat us + ilen g e) :: uint32_t) = unat us + ilen g e"
proof -
  from assms(1,2) have len: "EdgeLength g e = real (ilen g e)"
    and small: "unat maxPathLength + 10 + ilen g e < 2 ^ 32"
    by (simp_all add: search_graph_def)
  have sum: "real (unat us) + EdgeLength g e = real (unat us + ilen g e)"
    using len by simp
  have cmp: "\<And>s. (real (unat us + ilen g e) < real (unat s)) = (unat us + ilen g e < unat s)"
    by (rule of_nat_less_iff)
  show "relax g u us e (q, scores, links) =
           (if (case scores e of None \<Rightarrow> True | Some s \<Rightarrow> unat us + ilen g e < unat s)
            then (\<lparr>m_edge = e, m_score = of_nat (unat us + ilen g e)\<rparr> # q,
                  scores(e \<mapsto> of_nat (unat us + ilen g e)), links(e \<mapsto> u))
            else (q, scores, links))"
    unfolding relax_def Let_def sum to_uint32_nat cmp q_emplace_def
    by (simp split: option.split)
  from small assms(3) have "unat us + ilen g e < 2 ^ 32" by simp
  then show "unat (of_nat (unat us + ilen g e) :: uint32_t) = unat us + ilen g e"
    by (rule unat_score)
qed

subsection \<open>The measure\<close>

lemma potential_update:
  assumes "finite E" "e \<in> E"
    and "unat s' < (case scores e of None \<Rightarrow> 2 ^ 32 | Some s \<Rightarrow> unat s)"
  shows "score_potential E (scores(e \<mapsto> s')) < score_potential E scores"
proof -
  let ?pot = "\<lambda>sc x. case sc x of None \<Rightarrow> (2::nat) ^ 32 | Some s \<Rightarrow> unat s"
  have rest: "(\<Sum>x\<in>E - {e}. ?pot (scores(e \<mapsto> s')) x) = (\<Sum>x\<in>E - {e}. ?pot scores x)"
    by (rule sum.cong) auto
  have "score_potential E (scores(e \<mapsto> s')) = unat s' + (\<Sum>x\<in>E - {e}. ?pot (scores(e \<mapsto> s')) x)"
    unfolding score_potential_def using assms(1,2) by (subst sum.remove [of E e]) simp_all
  also have "\<dots> < ?pot scores e + (\<Sum>x\<in>E - {e}. ?pot scores x)"
    using assms(3) rest by simp
  also have "\<dots> = score_potential E scores"
    unfolding score_potential_def using assms(1,2) by (subst sum.remove [of E e]) simp_all
  finally show ?thesis .
qed

lemma relax_measure:
  assumes "search_graph g E maxPathLength" "e \<in> E" "unat us \<le> unat maxPathLength + 10"
  shows "search_measure E (relax g u us e st) \<le> search_measure E st"
proof -
  obtain q scores links where st: "st = (q, scores, links)" by (cases st)
  note r = relax_cases(1) [OF assms, where u = u and q = q and scores = scores and links = links]
    relax_cases(2) [OF assms]
  from assms(1) have fin: "finite E" by (simp add: search_graph_def)
  from assms have small: "unat us + ilen g e < 2 ^ 32" by (auto simp: search_graph_def)
  show ?thesis
  proof (cases "case scores e of None \<Rightarrow> True | Some s \<Rightarrow> unat us + ilen g e < unat s")
    case True
    then have "unat (of_nat (unat us + ilen g e) :: uint32_t)
                 < (case scores e of None \<Rightarrow> 2 ^ 32 | Some s \<Rightarrow> unat s)"
      using r(2) small by (simp split: option.splits)
    from potential_update [where scores = scores, OF fin assms(2) this]
    have "score_potential E (scores(e \<mapsto> of_nat (unat us + ilen g e))) < score_potential E scores" .
    with True st r(1) show ?thesis by (simp add: search_measure_def)
  next
    case False
    with st r(1) show ?thesis by simp
  qed
qed

lemma fold_relax_measure:
  assumes "search_graph g E maxPathLength" "set es \<subseteq> E" "unat us \<le> unat maxPathLength + 10"
  shows "search_measure E (fold (relax g u us) es st) \<le> search_measure E st"
  using assms(2)
proof (induction es arbitrary: st)
  case Nil
  then show ?case by simp
next
  case (Cons e es)
  then have "search_measure E (fold (relax g u us) es (relax g u us e st))
               \<le> search_measure E (relax g u us e st)" by simp
  also have "\<dots> \<le> search_measure E st"
    using Cons.prems by (intro relax_measure [OF assms(1) _ assms(3)]) simp
  finally show ?case by simp
qed

subsection \<open>Paths\<close>

lemma is_path_snoc:
  "is_path g (p @ [e]) \<longleftrightarrow> (p = [] \<or> (is_path g p \<and> e \<in> set (successors g (last p))))"
  by (induction g p rule: is_path.induct) (auto simp: successors_def)

lemma icost_snoc: "p \<noteq> [] \<Longrightarrow> icost g (p @ [e]) = icost g p + ilen g e"
  by (simp add: icost_def)

lemma linked_hd: "linked links src p \<Longrightarrow> p \<noteq> [] \<and> hd p = src"
  by (induction rule: linked.induct) auto

lemma linked_update:
  "linked links src p \<Longrightarrow> x \<notin> set p \<Longrightarrow> linked (links(x \<mapsto> y)) src p"
proof (induction rule: linked.induct)
  case linked_src
  then show ?case by (simp add: linked.linked_src)
next
  case (linked_snoc p e)
  then show ?case by (auto intro: linked.linked_snoc)
qed

lemma walk_linked:
  "linked links src p \<Longrightarrow> walk_links links dflt src (last p) acc = Some (acc @ rev (tl p))"
proof (induction arbitrary: acc rule: linked.induct)
  case linked_src
  then show ?case by (simp add: walk_links.simps)
next
  case (linked_snoc p e)
  from linked_snoc.hyps(1) have ne: "p \<noteq> []" by (simp add: linked_hd)
  have "walk_links links dflt src (last (p @ [e])) acc
          = walk_links links dflt src (last p) (acc @ [e])"
    using linked_snoc.hyps(2,3) by (subst walk_links.simps) (simp add: links_at_def)
  also have "\<dots> = Some ((acc @ [e]) @ rev (tl p))" by (rule linked_snoc.IH)
  finally show ?case using ne by simp
qed

lemma path_stays:
  "is_path g p \<Longrightarrow> \<forall>e\<in>E. set (successors g e) \<subseteq> E \<Longrightarrow> hd p \<in> E \<Longrightarrow> set p \<subseteq> E"
proof (induction g p rule: is_path.induct)
  case (1 g)
  then show ?case by simp
next
  case (2 g e)
  then show ?case by simp
next
  case (3 g e e' es)
  from 3(2,4) have e: "e \<in> E" and e': "e' \<in> set (successors g e)" and p: "is_path g (e' # es)"
    by (simp_all add: successors_def)
  from e e' 3(3) have "e' \<in> E" by blast
  with 3(1) [OF p 3(3)] e show ?case by simp
qed

subsection \<open>The invariant\<close>

lemma invD:
  assumes "dijkstra_inv g src to B E S u pending (q, scores, links)"
  shows "scores src = Some 0" "S \<subseteq> E" "dom scores \<subseteq> E" "to \<notin> S"
    and "\<And>x. x \<in> set q \<Longrightarrow> \<exists>s. scores (m_edge x) = Some s \<and> s \<le> m_score x"
    and "\<And>e s. scores e = Some s \<Longrightarrow> e \<notin> S
            \<Longrightarrow> \<lparr>m_edge = e, m_score = s\<rparr> \<in> set q \<or> B < unat s"
    and "\<And>e s. scores e = Some s \<Longrightarrow> e \<notin> S \<Longrightarrow> e \<noteq> src
            \<Longrightarrow> \<exists>w sw. w \<in> S \<and> links e = Some w \<and> e \<in> set (successors g w)
                     \<and> scores w = Some sw \<and> unat s = unat sw + ilen g e"
    and "\<And>x. x \<in> S \<Longrightarrow> \<exists>s p. scores x = Some s \<and> unat s \<le> B
            \<and> linked links src p \<and> last p = x \<and> set p \<subseteq> S \<and> is_path g p
            \<and> icost g p = unat s
            \<and> (\<forall>p'. path_between g src x p' \<longrightarrow> unat s \<le> icost g p')"
    and "\<And>x e. x \<in> S \<Longrightarrow> e \<in> set (successors g x) \<Longrightarrow>
            (x = u \<and> e \<in> set pending)
            \<or> (\<exists>s sx. scores e = Some s \<and> scores x = Some sx \<and> unat s \<le> unat sx + ilen g e)"
proof -
  note c = assms [unfolded dijkstra_inv_def prod.case]
  note r1 = c [THEN conjunct2]
  note r2 = r1 [THEN conjunct2]
  note r3 = r2 [THEN conjunct2]
  note r4 = r3 [THEN conjunct2]
  note r5 = r4 [THEN conjunct2]
  note r6 = r5 [THEN conjunct2]
  note r7 = r6 [THEN conjunct2]
  note r8 = r7 [THEN conjunct2]
  show "scores src = Some 0" by (rule c [THEN conjunct1])
  show "S \<subseteq> E" by (rule r1 [THEN conjunct1])
  show "dom scores \<subseteq> E" by (rule r2 [THEN conjunct1])
  show "to \<notin> S" by (rule r3 [THEN conjunct1])
  show "\<And>x. x \<in> set q \<Longrightarrow> \<exists>s. scores (m_edge x) = Some s \<and> s \<le> m_score x"
    using r4 [THEN conjunct1] by blast
  show "\<And>e s. scores e = Some s \<Longrightarrow> e \<notin> S
            \<Longrightarrow> \<lparr>m_edge = e, m_score = s\<rparr> \<in> set q \<or> B < unat s"
    using r5 [THEN conjunct1] by blast
  show "\<And>e s. scores e = Some s \<Longrightarrow> e \<notin> S \<Longrightarrow> e \<noteq> src
            \<Longrightarrow> \<exists>w sw. w \<in> S \<and> links e = Some w \<and> e \<in> set (successors g w)
                     \<and> scores w = Some sw \<and> unat s = unat sw + ilen g e"
    using r6 [THEN conjunct1] by blast
  show "\<And>x. x \<in> S \<Longrightarrow> \<exists>s p. scores x = Some s \<and> unat s \<le> B
            \<and> linked links src p \<and> last p = x \<and> set p \<subseteq> S \<and> is_path g p
            \<and> icost g p = unat s
            \<and> (\<forall>p'. path_between g src x p' \<longrightarrow> unat s \<le> icost g p')"
    by (rule r7 [THEN conjunct1, rule_format])
  show "\<And>x e. x \<in> S \<Longrightarrow> e \<in> set (successors g x) \<Longrightarrow>
            (x = u \<and> e \<in> set pending)
            \<or> (\<exists>s sx. scores e = Some s \<and> scores x = Some sx \<and> unat s \<le> unat sx + ilen g e)"
    by (rule r8 [rule_format])
qed

lemma invI:
  assumes "scores src = Some 0" "S \<subseteq> E" "dom scores \<subseteq> E" "to \<notin> S"
    and "\<And>x. x \<in> set q \<Longrightarrow> \<exists>s. scores (m_edge x) = Some s \<and> s \<le> m_score x"
    and "\<And>e s. scores e = Some s \<Longrightarrow> e \<notin> S
            \<Longrightarrow> \<lparr>m_edge = e, m_score = s\<rparr> \<in> set q \<or> B < unat s"
    and "\<And>e s. scores e = Some s \<Longrightarrow> e \<notin> S \<Longrightarrow> e \<noteq> src
            \<Longrightarrow> \<exists>w sw. w \<in> S \<and> links e = Some w \<and> e \<in> set (successors g w)
                     \<and> scores w = Some sw \<and> unat s = unat sw + ilen g e"
    and "\<And>x. x \<in> S \<Longrightarrow> \<exists>s p. scores x = Some s \<and> unat s \<le> B
            \<and> linked links src p \<and> last p = x \<and> set p \<subseteq> S \<and> is_path g p
            \<and> icost g p = unat s
            \<and> (\<forall>p'. path_between g src x p' \<longrightarrow> unat s \<le> icost g p')"
    and "\<And>x e. x \<in> S \<Longrightarrow> e \<in> set (successors g x) \<Longrightarrow>
            (x = u \<and> e \<in> set pending)
            \<or> (\<exists>s sx. scores e = Some s \<and> scores x = Some sx \<and> unat s \<le> unat sx + ilen g e)"
  shows "dijkstra_inv g src to B E S u pending (q, scores, links)"
  unfolding dijkstra_inv_def prod.case
proof (intro conjI)
  show "scores src = Some 0" "S \<subseteq> E" "dom scores \<subseteq> E" "to \<notin> S" by (rule assms)+
  show "\<forall>x\<in>set q. \<exists>s. scores (m_edge x) = Some s \<and> s \<le> m_score x"
    using assms(5) by blast
  show "\<forall>e s. scores e = Some s \<and> e \<notin> S
            \<longrightarrow> \<lparr>m_edge = e, m_score = s\<rparr> \<in> set q \<or> B < unat s"
    using assms(6) by blast
  show "\<forall>e s. scores e = Some s \<and> e \<notin> S \<and> e \<noteq> src
            \<longrightarrow> (\<exists>w sw. w \<in> S \<and> links e = Some w \<and> e \<in> set (successors g w)
                     \<and> scores w = Some sw \<and> unat s = unat sw + ilen g e)"
    using assms(7) by blast
  show "\<forall>x\<in>S. \<exists>s p. scores x = Some s \<and> unat s \<le> B
            \<and> linked links src p \<and> last p = x \<and> set p \<subseteq> S \<and> is_path g p
            \<and> icost g p = unat s
            \<and> (\<forall>p'. path_between g src x p' \<longrightarrow> unat s \<le> icost g p')"
    by (intro ballI) (rule assms(8))
  show "\<forall>x\<in>S. \<forall>e\<in>set (successors g x).
            (x = u \<and> e \<in> set pending)
            \<or> (\<exists>s sx. scores e = Some s \<and> scores x = Some sx \<and> unat s \<le> unat sx + ilen g e)"
    by (intro ballI) (rule assms(9))
qed

lemma inv_init:
  assumes "src \<in> E"
  shows "dijkstra_inv g src to B E {} u [] (q_emplace [] src 0, [src \<mapsto> 0], Map.empty)"
  using assms by (intro invI) (auto simp: q_emplace_def split: if_splits)

text \<open>Dropping the top entry when it is beyond the budget or stale.\<close>

lemma inv_pop:
  assumes inv: "dijkstra_inv g src to B E S u [] (q, scores, links)"
    and drop: "B < unat (m_score (q_top q))
        \<or> (\<exists>s. scores (m_edge (q_top q)) = Some s \<and> s < m_score (q_top q))"
  shows "dijkstra_inv g src to B E S u [] (q_pop q, scores, links)"
proof (rule invI)
  note d = invD [OF inv]
  show "scores src = Some 0" "S \<subseteq> E" "dom scores \<subseteq> E" "to \<notin> S" by (rule d)+
  show "\<exists>s. scores (m_edge x) = Some s \<and> s \<le> m_score x" if "x \<in> set (q_pop q)" for x
    using that set_q_pop [of q] d(5) by blast
  show "\<lparr>m_edge = e, m_score = s\<rparr> \<in> set (q_pop q) \<or> B < unat s"
    if "scores e = Some s" "e \<notin> S" for e s
  proof (cases "\<lparr>m_edge = e, m_score = s\<rparr> = q_top q")
    case True
    then have t: "m_edge (q_top q) = e" "m_score (q_top q) = s"
      by (metis State.select_convs(1), metis State.select_convs(2))
    from drop t that(1) have "B < unat s" by auto
    then show ?thesis ..
  next
    case False
    from d(6) [OF that] show ?thesis
    proof
      assume "\<lparr>m_edge = e, m_score = s\<rparr> \<in> set q"
      then have "\<lparr>m_edge = e, m_score = s\<rparr> \<in> set (q_pop q)" using False by (rule in_q_pop)
      then show ?thesis ..
    next
      assume "B < unat s"
      then show ?thesis ..
    qed
  qed
  show "\<exists>w sw. w \<in> S \<and> links e = Some w \<and> e \<in> set (successors g w)
                     \<and> scores w = Some sw \<and> unat s = unat sw + ilen g e"
    if "scores e = Some s" "e \<notin> S" "e \<noteq> src" for e s
    using that by (rule d(7))
  show "\<exists>s p. scores x = Some s \<and> unat s \<le> B
            \<and> linked links src p \<and> last p = x \<and> set p \<subseteq> S \<and> is_path g p
            \<and> icost g p = unat s
            \<and> (\<forall>p'. path_between g src x p' \<longrightarrow> unat s \<le> icost g p')"
    if "x \<in> S" for x using that by (rule d(8))
  show "(x = u \<and> e \<in> set [])
            \<or> (\<exists>s sx. scores e = Some s \<and> scores x = Some sx \<and> unat s \<le> unat sx + ilen g e)"
    if "x \<in> S" "e \<in> set (successors g x)" for x e using that by (rule d(9))
qed

text \<open>
  Every path from the source ends in an expanded edge or has passed an edge that is not
  expanded and whose score is at most the cost of the path.
\<close>

lemma frontier:
  assumes inv: "dijkstra_inv g src to B E S u [] (q, scores, links)"
  shows "path_between g src x p \<Longrightarrow>
         x \<in> S \<or> (\<exists>y s. y \<notin> S \<and> scores y = Some s \<and> unat s \<le> icost g p)"
proof (induction p arbitrary: x rule: rev_induct)
  case Nil
  then show ?case by (simp add: path_between_def)
next
  case (snoc e p)
  note d = invD [OF inv]
  from snoc.prems have x: "x = e" by (simp add: path_between_def)
  show ?case
  proof (cases "p = []")
    case True
    with snoc.prems have "e = src" by (simp add: path_between_def)
    with d(1) x show ?thesis by (cases "src \<in> S") auto
  next
    case False
    with snoc.prems have pb: "path_between g src (last p) p" and e: "e \<in> set (successors g (last p))"
      by (auto simp: path_between_def is_path_snoc)
    have c: "icost g (p @ [e]) = icost g p + ilen g e" using False by (rule icost_snoc)
    from snoc.IH [OF pb] show ?thesis
    proof
      assume l: "last p \<in> S"
      from d(9) [OF l e] obtain s sx where s: "scores e = Some s" "scores (last p) = Some sx"
        "unat s \<le> unat sx + ilen g e" by auto
      from d(8) [OF l] s(2) pb have "unat sx \<le> icost g p" by auto
      with s c x show ?thesis by (cases "e \<in> S") auto
    next
      assume "\<exists>y s. y \<notin> S \<and> scores y = Some s \<and> unat s \<le> icost g p"
      with c show ?thesis by auto
    qed
  qed
qed

text \<open>The score of the top entry, when fresh and within the budget, is a lower bound.\<close>

lemma top_lower_bound:
  assumes inv: "dijkstra_inv g src to B E S u0 [] (q, scores, links)"
    and top: "q \<noteq> []" "unat (m_score (q_top q)) \<le> B"
      "scores (m_edge (q_top q)) = Some (m_score (q_top q))"
    and p: "path_between g src (m_edge (q_top q)) p"
  shows "unat (m_score (q_top q)) \<le> icost g p"
proof -
  note d = invD [OF inv]
  from frontier [OF inv p] show ?thesis
  proof
    assume "m_edge (q_top q) \<in> S"
    from d(8) [OF this] top(3) p show ?thesis by auto
  next
    assume "\<exists>y s. y \<notin> S \<and> scores y = Some s \<and> unat s \<le> icost g p"
    then obtain y s where y: "y \<notin> S" "scores y = Some s" "unat s \<le> icost g p" by blast
    from d(6) [OF y(2,1)] show ?thesis
    proof
      assume "\<lparr>m_edge = y, m_score = s\<rparr> \<in> set q"
      from q_top_least [OF this] have "m_score (q_top q) \<le> s" by simp
      then have "unat (m_score (q_top q)) \<le> unat s" by (simp add: word_le_nat_alt)
      with y(3) show ?thesis by simp
    next
      assume "B < unat s"
      with top(2) y(3) show ?thesis by simp
    qed
  qed
qed

text \<open>The path to the top entry along the links.\<close>

lemma top_path:
  assumes inv: "dijkstra_inv g src to B E S u0 [] (q, scores, links)"
    and top: "q \<noteq> []" "unat (m_score (q_top q)) \<le> B"
      "scores (m_edge (q_top q)) = Some (m_score (q_top q))"
  shows "\<exists>p. linked links src p \<and> last p = m_edge (q_top q)
             \<and> set p \<subseteq> insert (m_edge (q_top q)) S \<and> is_path g p
             \<and> icost g p = unat (m_score (q_top q))"
proof -
  note d = invD [OF inv]
  let ?u = "m_edge (q_top q)" and ?us = "m_score (q_top q)"
  show ?thesis
  proof (cases "?u \<in> S")
    case True
    from d(8) [OF this] top(3) show ?thesis by auto
  next
    case False
    show ?thesis
    proof (cases "?u = src")
      case True
      with d(1) top(3) have "?us = 0" by simp
      with True have "linked links src [src] \<and> last [src] = ?u
             \<and> set [src] \<subseteq> insert ?u S \<and> is_path g [src] \<and> icost g [src] = unat ?us"
        by (simp add: linked_src icost_def)
      then show ?thesis by blast
    next
      case ne: False
      from d(7) [OF top(3) False ne] obtain w sw
        where w: "w \<in> S" "links ?u = Some w" "?u \<in> set (successors g w)"
          "scores w = Some sw" "unat ?us = unat sw + ilen g ?u" by blast
      from d(8) [OF w(1)] w(4) obtain p
        where p: "linked links src p" "last p = w" "set p \<subseteq> S" "is_path g p"
          "icost g p = unat sw" by auto
      from p(1) have pne: "p \<noteq> []" by (simp add: linked_hd)
      have "linked links src (p @ [?u])" using p(1,2) w(2) ne by (auto intro: linked_snoc)
      moreover have "is_path g (p @ [?u])" using p(2,4) w(3) by (simp add: is_path_snoc)
      moreover have "icost g (p @ [?u]) = unat ?us" using p(5) w(5) pne by (simp add: icost_snoc)
      moreover have "set (p @ [?u]) \<subseteq> insert ?u S" using p(3) by auto
      ultimately show ?thesis by (intro exI [of _ "p @ [?u]"]) simp
    qed
  qed
qed

text \<open>Expanding the top entry: it joins the expanded edges, its successors are pending.\<close>

lemma inv_settle:
  assumes inv: "dijkstra_inv g src to B E S u0 [] (q, scores, links)"
    and top: "q \<noteq> []" "unat (m_score (q_top q)) \<le> B"
      "scores (m_edge (q_top q)) = Some (m_score (q_top q))"
    and nt: "m_edge (q_top q) \<noteq> to"
  shows "dijkstra_inv g src to B E (insert (m_edge (q_top q)) S) (m_edge (q_top q))
           (successors g (m_edge (q_top q))) (q_pop q, scores, links)"
proof (rule invI)
  note d = invD [OF inv]
  let ?u = "m_edge (q_top q)" and ?us = "m_score (q_top q)"
  let ?S = "insert ?u S"
  show "scores src = Some 0" "dom scores \<subseteq> E" by (rule d)+
  show "?S \<subseteq> E" using d(2,3) top(3) by auto
  show "to \<notin> ?S" using d(4) nt by auto
  show "\<exists>s. scores (m_edge x) = Some s \<and> s \<le> m_score x" if "x \<in> set (q_pop q)" for x
    using that set_q_pop [of q] d(5) by blast
  show "\<lparr>m_edge = e, m_score = s\<rparr> \<in> set (q_pop q) \<or> B < unat s"
    if "scores e = Some s" "e \<notin> ?S" for e s
  proof -
    from that(2) have e: "e \<notin> S" "e \<noteq> ?u" by auto
    from d(6) [OF that(1) e(1)] show ?thesis
    proof
      assume i: "\<lparr>m_edge = e, m_score = s\<rparr> \<in> set q"
      have "\<lparr>m_edge = e, m_score = s\<rparr> \<noteq> q_top q" using e(2) by (metis State.select_convs(1))
      with i have "\<lparr>m_edge = e, m_score = s\<rparr> \<in> set (q_pop q)" by (rule in_q_pop)
      then show ?thesis ..
    next
      assume "B < unat s"
      then show ?thesis ..
    qed
  qed
  show "\<exists>w sw. w \<in> ?S \<and> links e = Some w \<and> e \<in> set (successors g w)
                     \<and> scores w = Some sw \<and> unat s = unat sw + ilen g e"
    if "scores e = Some s" "e \<notin> ?S" "e \<noteq> src" for e s
  proof -
    from that(2) have "e \<notin> S" by simp
    from d(7) [OF that(1) this that(3)] show ?thesis by blast
  qed
  show "\<exists>s p. scores x = Some s \<and> unat s \<le> B
            \<and> linked links src p \<and> last p = x \<and> set p \<subseteq> ?S \<and> is_path g p
            \<and> icost g p = unat s
            \<and> (\<forall>p'. path_between g src x p' \<longrightarrow> unat s \<le> icost g p')"
    if "x \<in> ?S" for x
  proof (cases "x = ?u")
    case True
    from top_path [OF inv top] obtain p where p: "linked links src p" "last p = ?u"
      "set p \<subseteq> ?S" "is_path g p" "icost g p = unat ?us" by blast
    have "\<forall>p'. path_between g src ?u p' \<longrightarrow> unat ?us \<le> icost g p'"
      using top_lower_bound [OF inv top] by blast
    with p top(2,3) True show ?thesis by blast
  next
    case False
    with that have "x \<in> S" by simp
    from d(8) [OF this] obtain s p where "scores x = Some s" "unat s \<le> B"
      "linked links src p" "last p = x" "set p \<subseteq> S" "is_path g p" "icost g p = unat s"
      "\<forall>p'. path_between g src x p' \<longrightarrow> unat s \<le> icost g p'" by blast
    moreover from this(5) have "set p \<subseteq> ?S" by auto
    ultimately show ?thesis by blast
  qed
  show "(x = ?u \<and> e \<in> set (successors g ?u))
            \<or> (\<exists>s sx. scores e = Some s \<and> scores x = Some sx \<and> unat s \<le> unat sx + ilen g e)"
    if "x \<in> ?S" "e \<in> set (successors g x)" for x e
  proof (cases "x = ?u")
    case True
    with that(2) show ?thesis by simp
  next
    case False
    with that(1) have "x \<in> S" by simp
    from d(9) [OF this that(2)] show ?thesis by simp
  qed
qed

text \<open>Relaxing one pending edge.\<close>

lemma relax_inv:
  assumes sg: "search_graph g E maxPathLength" and B: "B = unat maxPathLength + 10"
    and inv: "dijkstra_inv g src to B E S u (e # es) (q, scores, links)"
    and u: "u \<in> S" "scores u = Some us" and e: "e \<in> set (successors g u)"
  shows "\<exists>q' scores' links'. relax g u us e (q, scores, links) = (q', scores', links')
           \<and> dijkstra_inv g src to B E S u es (q', scores', links') \<and> scores' u = Some us"
proof -
  note d = invD [OF inv]
  from d(8) [OF u(1)] u(2) obtain pu where pu: "unat us \<le> B" "linked links src pu"
    "last pu = u" "set pu \<subseteq> S" "is_path g pu" "icost g pu = unat us" by auto
  from sg have closed: "\<forall>x\<in>E. set (successors g x) \<subseteq> E" by (simp add: search_graph_def)
  from u(1) d(2) have "u \<in> E" by auto
  with closed e have eE: "e \<in> E" by blast
  from pu(1) B have usB: "unat us \<le> unat maxPathLength + 10" by simp
  note rc = relax_cases(1) [OF sg eE usB, where u = u and q = q and scores = scores and links = links]
  let ?s' = "of_nat (unat us + ilen g e) :: uint32_t"
  have s': "unat ?s' = unat us + ilen g e" by (rule relax_cases(2) [OF sg eE usB])
  show ?thesis
  proof (cases "case scores e of None \<Rightarrow> True | Some s \<Rightarrow> unat us + ilen g e < unat s")
    case False
    then obtain s where s: "scores e = Some s" "unat s \<le> unat us + ilen g e"
      by (auto split: option.splits)
    have "dijkstra_inv g src to B E S u es (q, scores, links)"
    proof (rule invI)
      show "scores src = Some 0" "S \<subseteq> E" "dom scores \<subseteq> E" "to \<notin> S" by (rule d)+
      show "\<exists>s. scores (m_edge x) = Some s \<and> s \<le> m_score x" if "x \<in> set q" for x
        using that by (rule d(5))
      show "\<lparr>m_edge = e, m_score = s\<rparr> \<in> set q \<or> B < unat s"
        if "scores e = Some s" "e \<notin> S" for e s using that by (rule d(6))
      show "\<exists>w sw. w \<in> S \<and> links e = Some w \<and> e \<in> set (successors g w)
                     \<and> scores w = Some sw \<and> unat s = unat sw + ilen g e"
        if "scores e = Some s" "e \<notin> S" "e \<noteq> src" for e s using that by (rule d(7))
      show "\<exists>s p. scores x = Some s \<and> unat s \<le> B
            \<and> linked links src p \<and> last p = x \<and> set p \<subseteq> S \<and> is_path g p
            \<and> icost g p = unat s
            \<and> (\<forall>p'. path_between g src x p' \<longrightarrow> unat s \<le> icost g p')"
        if "x \<in> S" for x using that by (rule d(8))
      show "(x = u \<and> e' \<in> set es)
            \<or> (\<exists>s sx. scores e' = Some s \<and> scores x = Some sx \<and> unat s \<le> unat sx + ilen g e')"
        if "x \<in> S" "e' \<in> set (successors g x)" for x e'
      proof -
        from d(9) [OF that] show ?thesis
        proof
          assume a: "x = u \<and> e' \<in> set (e # es)"
          show ?thesis
          proof (cases "e' = e")
            case True
            with a s u(2) show ?thesis by auto
          next
            case False
            with a show ?thesis by simp
          qed
        next
          assume "\<exists>s sx. scores e' = Some s \<and> scores x = Some sx \<and> unat s \<le> unat sx + ilen g e'"
          then show ?thesis ..
        qed
      qed
    qed
    with False rc u(2) show ?thesis by simp
  next
    case True
    let ?q = "\<lparr>m_edge = e, m_score = ?s'\<rparr> # q"
    let ?scores = "scores(e \<mapsto> ?s')" and ?links = "links(e \<mapsto> u)"
    have old: "\<And>s. scores e = Some s \<Longrightarrow> unat ?s' < unat s"
      using True s' by simp
    have eS: "e \<notin> S"
    proof
      assume "e \<in> S"
      from d(8) [OF this] obtain s where s: "scores e = Some s"
        "\<forall>p'. path_between g src e p' \<longrightarrow> unat s \<le> icost g p'" by blast
      from pu(2) have "pu \<noteq> []" "hd pu = src" by (simp_all add: linked_hd)
      then have "path_between g src e (pu @ [e])" "icost g (pu @ [e]) = unat us + ilen g e"
        using pu(3,5,6) e by (simp_all add: path_between_def is_path_snoc icost_snoc)
      with s(2) have "unat s \<le> unat us + ilen g e" by fastforce
      with old [OF s(1)] s' show False by simp
    qed
    have esrc: "e \<noteq> src"
    proof
      assume "e = src"
      with d(1) have "scores e = Some 0" by simp
      from old [OF this] show False by simp
    qed
    from eS u(1) have eu: "e \<noteq> u" by auto
    have "dijkstra_inv g src to B E S u es (?q, ?scores, ?links)"
    proof (rule invI)
      show "?scores src = Some 0" using d(1) esrc by simp
      show "S \<subseteq> E" "to \<notin> S" by (rule d)+
      show "dom ?scores \<subseteq> E" using d(3) eE by auto
      show "\<exists>s. ?scores (m_edge x) = Some s \<and> s \<le> m_score x" if "x \<in> set ?q" for x
      proof (cases "m_edge x = e")
        case False
        with that have "x \<in> set q" by auto
        from d(5) [OF this] False show ?thesis by simp
      next
        case True
        from that have "x = \<lparr>m_edge = e, m_score = ?s'\<rparr> \<or> x \<in> set q" by simp
        then show ?thesis
        proof
          assume "x = \<lparr>m_edge = e, m_score = ?s'\<rparr>"
          then show ?thesis by simp
        next
          assume "x \<in> set q"
          from d(5) [OF this] True obtain s where s: "scores e = Some s" "s \<le> m_score x" by auto
          from old [OF s(1)] have "?s' < s" by (simp add: word_less_nat_alt)
          with s(2) True show ?thesis by simp
        qed
      qed
      show "\<lparr>m_edge = e', m_score = s\<rparr> \<in> set ?q \<or> B < unat s"
        if "?scores e' = Some s" "e' \<notin> S" for e' s
      proof (cases "e' = e")
        case True
        with that(1) show ?thesis by simp
      next
        case False
        with that(1) have "scores e' = Some s" by simp
        from d(6) [OF this that(2)] show ?thesis by auto
      qed
      show "\<exists>w sw. w \<in> S \<and> ?links e' = Some w \<and> e' \<in> set (successors g w)
                     \<and> ?scores w = Some sw \<and> unat s = unat sw + ilen g e'"
        if "?scores e' = Some s" "e' \<notin> S" "e' \<noteq> src" for e' s
      proof (cases "e' = e")
        case True
        with that(1) have "s = ?s'" by simp
        with True u e eu s' show ?thesis by auto
      next
        case False
        with that(1) have "scores e' = Some s" by simp
        from d(7) [OF this that(2,3)] obtain w sw
          where w: "w \<in> S" "links e' = Some w" "e' \<in> set (successors g w)"
            "scores w = Some sw" "unat s = unat sw + ilen g e'" by blast
        from w(1) eS have "w \<noteq> e" by auto
        with w False show ?thesis by auto
      qed
      show "\<exists>s p. ?scores x = Some s \<and> unat s \<le> B
            \<and> linked ?links src p \<and> last p = x \<and> set p \<subseteq> S \<and> is_path g p
            \<and> icost g p = unat s
            \<and> (\<forall>p'. path_between g src x p' \<longrightarrow> unat s \<le> icost g p')"
        if "x \<in> S" for x
      proof -
        from d(8) [OF that] obtain s p where sp: "scores x = Some s" "unat s \<le> B"
          "linked links src p" "last p = x" "set p \<subseteq> S" "is_path g p" "icost g p = unat s"
          "\<forall>p'. path_between g src x p' \<longrightarrow> unat s \<le> icost g p'" by blast
        from sp(5) eS have "e \<notin> set p" by auto
        with sp(3) have "linked ?links src p" by (rule linked_update)
        moreover from that eS have "?scores x = Some s" using sp(1) by auto
        ultimately show ?thesis using sp by blast
      qed
      show "(x = u \<and> e' \<in> set es)
            \<or> (\<exists>s sx. ?scores e' = Some s \<and> ?scores x = Some sx \<and> unat s \<le> unat sx + ilen g e')"
        if "x \<in> S" "e' \<in> set (successors g x)" for x e'
      proof -
        from that(1) eS have xe: "x \<noteq> e" by auto
        from d(9) [OF that] show ?thesis
        proof
          assume a: "x = u \<and> e' \<in> set (e # es)"
          show ?thesis
          proof (cases "e' = e")
            case True
            with a u(2) eu s' show ?thesis by auto
          next
            case False
            with a show ?thesis by simp
          qed
        next
          assume "\<exists>s sx. scores e' = Some s \<and> scores x = Some sx \<and> unat s \<le> unat sx + ilen g e'"
          then obtain s sx where s: "scores e' = Some s" "scores x = Some sx"
            "unat s \<le> unat sx + ilen g e'" by blast
          show ?thesis
          proof (cases "e' = e")
            case True
            from old [of s] s(1) True have "unat ?s' < unat s" by simp
            with s(2,3) True xe show ?thesis by auto
          next
            case False
            with s xe show ?thesis by auto
          qed
        qed
      qed
    qed
    with True rc u(2) eu show ?thesis by simp
  qed
qed

lemma fold_relax_inv:
  assumes sg: "search_graph g E maxPathLength" and B: "B = unat maxPathLength + 10"
    and u: "u \<in> S"
  shows "dijkstra_inv g src to B E S u es (q, scores, links) \<Longrightarrow> scores u = Some us
         \<Longrightarrow> set es \<subseteq> set (successors g u)
         \<Longrightarrow> dijkstra_inv g src to B E S u [] (fold (relax g u us) es (q, scores, links))"
proof (induction es arbitrary: q scores links)
  case Nil
  then show ?case by simp
next
  case (Cons e es)
  from Cons.prems(3) have e: "e \<in> set (successors g u)" and es: "set es \<subseteq> set (successors g u)"
    by simp_all
  from relax_inv [OF sg B Cons.prems(1) u Cons.prems(2) e]
  obtain q' scores' links' where r: "relax g u us e (q, scores, links) = (q', scores', links')"
    "dijkstra_inv g src to B E S u es (q', scores', links')" "scores' u = Some us" by blast
  from Cons.IH [OF r(2,3) es] r(1) show ?case by simp
qed

subsection \<open>The loop returns, and what it returns\<close>

lemma dijkstra_total:
  assumes sg: "search_graph g E maxPathLength" and B: "B = unat maxPathLength + 10"
  shows "dijkstra_inv g src to B E S u [] st \<Longrightarrow>
         \<exists>r. dijkstra g src to maxPathLength path st = Some r
           \<and> (fst r \<longrightarrow> (\<exists>p. snd r = p @ rev path \<and> path_between g src to p \<and> icost g p \<le> B
                            \<and> (\<forall>p'. path_between g src to p' \<longrightarrow> icost g p \<le> icost g p')))
           \<and> (\<not> fst r \<longrightarrow> snd r = path \<and> (\<forall>p'. path_between g src to p' \<longrightarrow> B < icost g p'))"
proof (induction "search_measure E st" arbitrary: st S u rule: less_induct)
  case less
  obtain q scores links where st: "st = (q, scores, links)" by (cases st)
  from less.prems st have inv: "dijkstra_inv g src to B E S u [] (q, scores, links)" by simp
  note d = invD [OF inv]
  from sg have closed: "\<forall>x\<in>E. set (successors g x) \<subseteq> E" by (simp add: search_graph_def)
  from d(1,3) have "src \<in> E" by auto
  with sg have "unat maxPathLength + 10 < 2 ^ 32" by (fastforce simp: search_graph_def)
  then have budget: "unat (maxPathLength + kLengthToleranceM) = B"
    using B by (simp add: budget_unat)
  show ?case
  proof (cases "q = []")
    case True
    have "B < icost g p'" if p': "path_between g src to p'" for p'
    proof -
      from frontier [OF inv p'] d(4) obtain y s
        where y: "y \<notin> S" "scores y = Some s" "unat s \<le> icost g p'" by blast
      from d(6) [OF y(2,1)] True have "B < unat s" by simp
      with y(3) show ?thesis by simp
    qed
    moreover have "dijkstra g src to maxPathLength path st = Some (False, path)"
      using True st by (subst dijkstra.simps) simp
    ultimately show ?thesis by simp
  next
    case False
    let ?u = "m_edge (q_top q)" and ?us = "m_score (q_top q)"
    from q_top_in [OF False] have "q_top q \<in> set q" .
    from d(5) [OF this] obtain s where s: "scores ?u = Some s" "s \<le> ?us" by blast
    have idem: "scores(?u \<mapsto> s) = scores" using s(1) by (rule fun_upd_idem)
    have less_pop: "search_measure E (q_pop q, scores, links) < search_measure E st"
      using length_q_pop [OF False] st by (simp add: search_measure_def)
    consider (prune) "maxPathLength + kLengthToleranceM < ?us"
      | (stale) "\<not> maxPathLength + kLengthToleranceM < ?us" "s < ?us"
      | (target) "\<not> maxPathLength + kLengthToleranceM < ?us" "\<not> s < ?us" "?u = to"
      | (expand) "\<not> maxPathLength + kLengthToleranceM < ?us" "\<not> s < ?us" "?u \<noteq> to"
      by blast
    then show ?thesis
    proof cases
      case prune
      then have "B < unat ?us" using budget by (simp add: word_less_nat_alt)
      then have i: "dijkstra_inv g src to B E S u [] (q_pop q, scores, links)"
        by (intro inv_pop [OF inv]) simp
      have "dijkstra g src to maxPathLength path st
              = dijkstra g src to maxPathLength path (q_pop q, scores, links)"
        using False st prune by (subst dijkstra.simps) (simp add: Let_def)
      with less.hyps [OF less_pop i] show ?thesis by simp
    next
      case stale
      have i: "dijkstra_inv g src to B E S u [] (q_pop q, scores, links)"
        using s(1) stale(2) by (intro inv_pop [OF inv]) simp
      have "dijkstra g src to maxPathLength path st
              = dijkstra g src to maxPathLength path (q_pop q, scores, links)"
        using False st stale s(1) idem by (subst dijkstra.simps) (simp add: Let_def)
      with less.hyps [OF less_pop i] show ?thesis by simp
    next
      case target
      from target(1) budget have usB: "unat ?us \<le> B" by (simp add: word_less_nat_alt not_less)
      from target(2) s(2) have fresh: "scores ?u = Some ?us" using s(1) by simp
      from top_path [OF inv False usB fresh] target(3) obtain p
        where p: "linked links src p" "last p = to" "is_path g p" "icost g p = unat ?us" by blast
      from p(1) have hd: "p \<noteq> []" "hd p = src" by (simp_all add: linked_hd)
      have lb: "\<forall>p'. path_between g src to p' \<longrightarrow> icost g p \<le> icost g p'"
        using top_lower_bound [OF inv False usB fresh] target(3) p(4) by simp
      have w: "walk_links links (DefaultEdge g) src to path = Some (path @ rev (tl p))"
        using walk_linked [OF p(1), of "DefaultEdge g" path] p(2) by simp
      have "rev ((path @ rev (tl p)) @ [src]) = (hd p # tl p) @ rev path" using hd(2) by simp
      also have "\<dots> = p @ rev path" using hd(1) by simp
      finally have r: "rev ((path @ rev (tl p)) @ [src]) = p @ rev path" .
      have "dijkstra g src to maxPathLength path st = Some (True, p @ rev path)"
        using False st target s(1) w r by (subst dijkstra.simps) (simp add: Let_def)
      moreover have "path_between g src to p" using p(2,3) hd(2) by (simp add: path_between_def)
      ultimately show ?thesis using lb p(4) usB by auto
    next
      case expand
      from expand(1) budget have usB: "unat ?us \<le> B" by (simp add: word_less_nat_alt not_less)
      from expand(2) s(2) have fresh: "scores ?u = Some ?us" using s(1) by simp
      let ?S = "insert ?u S" and ?es = "successors g ?u"
      let ?st = "fold (relax g ?u ?us) ?es (q_pop q, scores, links)"
      from inv_settle [OF inv False usB fresh expand(3)]
      have "dijkstra_inv g src to B E ?S ?u ?es (q_pop q, scores, links)" .
      from fold_relax_inv [OF sg B _ this fresh]
      have i: "dijkstra_inv g src to B E ?S ?u [] ?st" by simp
      from fresh d(3) have "?u \<in> E" by auto
      with closed have "set ?es \<subseteq> E" by blast
      from fold_relax_measure [OF sg this, of ?us ?u "(q_pop q, scores, links)"] usB B
      have "search_measure E ?st \<le> search_measure E (q_pop q, scores, links)" by simp
      with less_pop have m: "search_measure E ?st < search_measure E st" by simp
      have "dijkstra g src to maxPathLength path st = dijkstra g src to maxPathLength path ?st"
        using False st expand s(1) idem
        by (subst dijkstra.simps) (simp add: Let_def successors_def)
      with less.hyps [OF m i] show ?thesis by simp
    qed
  qed
qed

subsection \<open>Lengths and scores\<close>

lemma path_length_icost:
  assumes "\<forall>e\<in>E. EdgeLength g e = real (ilen g e)" "set p \<subseteq> E"
  shows "path_length g p = real (sum_list (map (ilen g) p))"
  using assms(2)
proof (induction p)
  case Nil
  then show ?case by (simp add: path_length_def)
next
  case (Cons e p)
  then show ?case using assms(1) by (simp add: path_length_def)
qed

lemma path_between_lengths:
  assumes "\<forall>e\<in>E. set (successors g e) \<subseteq> E" "\<forall>e\<in>E. EdgeLength g e = real (ilen g e)"
    and "src \<in> E" "path_between g src x p"
  shows "path_length g (tl p) = real (icost g p)"
    and "path_length g p = EdgeLength g src + real (icost g p)"
proof -
  from assms(4) have p: "is_path g p" "hd p = src" "p \<noteq> []"
    by (auto simp: path_between_def)
  from path_stays [OF p(1) assms(1)] p(2) assms(3) have "set p \<subseteq> E" by simp
  then have "set (tl p) \<subseteq> E" using p(3) by (auto dest: list.set_sel(2))
  from path_length_icost [OF assms(2) this]
  show 1: "path_length g (tl p) = real (icost g p)" by (simp add: icost_def)
  have "path_length g p = path_length g (hd p # tl p)" using p(3) by simp
  also have "\<dots> = EdgeLength g src + path_length g (tl p)"
    using p(2) by (simp add: path_length_def)
  finally show "path_length g p = EdgeLength g src + real (icost g p)" using 1 by simp
qed

subsection \<open>The shortest path\<close>

lemma is_path_nonempty: "is_path g p \<Longrightarrow> p \<noteq> []"
  by (cases p) simp_all

text \<open>
  Claim C1, as the code has it. Let the edges the search can reach lie in a finite set
  \<open>E\<close>, let their lengths be non-negative whole numbers, and let \<open>maxPathLength + 10\<close> plus the
  length of any of them stay below \<open>2 ^ 32\<close>. Measure a path from the source to the target
  by the lengths of its edges after the source edge. If some path measures at most
  \<open>maxPathLength + 10\<close>, \<open>FindShortestPath\<close> returns true with a path from the source to the
  target within that budget whose total length is the least among all such paths; if no
  path does, it returns false and leaves the path empty. In both cases the call returns.
\<close>

theorem FindShortestPath_optimal:
  assumes "finite E" "src \<in> E"
    and "\<forall>e\<in>E. set (GetOutgoingEdges g (GetEndJunction g e)) \<subseteq> E"
    and "\<forall>e\<in>E. EdgeLength g e \<in> \<nat>"
    and "\<forall>e\<in>E. real (unat maxPathLength) + 10 + EdgeLength g e < 2 ^ 32"
  shows "((\<exists>p. path_between g src to p \<and> path_length g (tl p) \<le> real (unat maxPathLength) + 10)
            \<longrightarrow> (\<exists>P. FindShortestPath g src to frc maxPathLength [] = Inr (True, P)
                     \<and> path_between g src to P
                     \<and> path_length g (tl P) \<le> real (unat maxPathLength) + 10
                     \<and> (\<forall>p. path_between g src to p \<longrightarrow> path_length g P \<le> path_length g p)))
       \<and> (\<not> (\<exists>p. path_between g src to p \<and> path_length g (tl p) \<le> real (unat maxPathLength) + 10)
            \<longrightarrow> FindShortestPath g src to frc maxPathLength [] = Inr (False, []))"
proof -
  let ?B = "unat maxPathLength + 10"
  have int: "\<forall>e\<in>E. EdgeLength g e = real (ilen g e)"
  proof
    fix e assume "e \<in> E"
    with assms(4) have "EdgeLength g e \<in> \<nat>" by blast
    then obtain n where "EdgeLength g e = real n" by (auto elim: Nats_cases)
    then show "EdgeLength g e = real (ilen g e)" by (simp add: ilen_def)
  qed
  have closed: "\<forall>e\<in>E. set (successors g e) \<subseteq> E" using assms(3) by (simp add: successors_def)
  have small: "\<forall>e\<in>E. ?B + ilen g e < 2 ^ 32"
  proof
    fix e assume e: "e \<in> E"
    with assms(5) int have "real (?B + ilen g e) < real (2 ^ 32)" by fastforce
    then show "?B + ilen g e < 2 ^ 32" by (simp only: of_nat_less_iff)
  qed
  from assms(1) closed int small have sg: "search_graph g E maxPathLength"
    by (simp add: search_graph_def)
  have init: "dijkstra_inv g src to ?B E {} src [] (q_emplace [] src 0, [src \<mapsto> 0], Map.empty)"
    using assms(2) by (rule inv_init)
  from dijkstra_total [OF sg refl init, of "[]"] obtain r
    where r: "dijkstra g src to maxPathLength [] (q_emplace [] src 0, [src \<mapsto> 0], Map.empty) = Some r"
      and t: "fst r \<longrightarrow> (\<exists>p. snd r = p @ rev [] \<and> path_between g src to p \<and> icost g p \<le> ?B
                            \<and> (\<forall>p'. path_between g src to p' \<longrightarrow> icost g p \<le> icost g p'))"
      and f: "\<not> fst r \<longrightarrow> snd r = [] \<and> (\<forall>p'. path_between g src to p' \<longrightarrow> ?B < icost g p')"
    by blast
  have F: "FindShortestPath g src to frc maxPathLength [] = Inr r"
    using r by (simp add: FindShortestPath_def)
  note len = path_between_lengths [OF closed int assms(2)]
  have budget: "path_length g (tl p) \<le> real (unat maxPathLength) + 10 \<longleftrightarrow> icost g p \<le> ?B"
    if "path_between g src to p" for p
  proof -
    have "path_length g (tl p) = real (icost g p)" using that by (rule len(1))
    moreover have "real (unat maxPathLength) + 10 = real ?B" by simp
    ultimately show ?thesis by (simp only: of_nat_le_iff)
  qed
  show ?thesis
  proof (cases "fst r")
    case True
    with t obtain P where P: "snd r = P" "path_between g src to P" "icost g P \<le> ?B"
      "\<forall>p'. path_between g src to p' \<longrightarrow> icost g P \<le> icost g p'" by auto
    from True P(1) have "r = (True, P)" by (cases r) simp
    with F have 1: "FindShortestPath g src to frc maxPathLength [] = Inr (True, P)" by simp
    have 2: "path_length g (tl P) \<le> real (unat maxPathLength) + 10"
      using budget [OF P(2)] P(3) by simp
    have 3: "\<forall>p. path_between g src to p \<longrightarrow> path_length g P \<le> path_length g p"
    proof (intro allI impI)
      fix p assume p: "path_between g src to p"
      with P(4) have "icost g P \<le> icost g p" by blast
      then show "path_length g P \<le> path_length g p"
        using len(2) [OF p] len(2) [OF P(2)] by simp
    qed
    from 1 2 3 P(2) show ?thesis by blast
  next
    case False
    with f have e: "snd r = []" and far: "\<forall>p'. path_between g src to p' \<longrightarrow> ?B < icost g p'"
      by simp_all
    from False e have "r = (False, [])" by (cases r) simp
    with F have 1: "FindShortestPath g src to frc maxPathLength [] = Inr (False, [])" by simp
    have "\<not> (\<exists>p. path_between g src to p \<and> path_length g (tl p) \<le> real (unat maxPathLength) + 10)"
    proof
      assume "\<exists>p. path_between g src to p \<and> path_length g (tl p) \<le> real (unat maxPathLength) + 10"
      then obtain p where p: "path_between g src to p"
        "path_length g (tl p) \<le> real (unat maxPathLength) + 10" by blast
      from budget [OF p(1)] p(2) have "icost g p \<le> ?B" by simp
      with far p(1) show False by fastforce
    qed
    with 1 show ?thesis by blast
  qed
qed

text \<open>
  Claim C1 as stated fails in three ways. The budget \<open>maxPathLength + 10\<close> wraps around:
  for \<open>maxPathLength = 4294967295\<close> it is 9, and a target 10 units away is not found. A
  score drops the fraction of a length: the edges of length 1.9 and 1 both score 1, and the
  longer path \<open>[1, 2, 4]\<close> is returned. The score does not count the source edge: with a
  source of length 100 every path is longer than the budget 10, and the target is found.
\<close>

lemma run_wrapped_budget: "FindShortestPath g_chain 1 2 () 4294967295 [] = Inr (False, [])"
  by (simp add: search_eval g_chain_def)

lemma run_truncated: "FindShortestPath g_frac 1 4 () 100 [] = Inr (True, [1, 2, 4])"
  by (simp add: search_eval g_frac_def)

lemma run_long_source: "FindShortestPath g_long 1 2 () 0 [] = Inr (True, [1, 2])"
  by (simp add: search_eval g_long_def)

lemma g_long_paths: "\<not> (\<exists>p. path_between g_long 1 to p \<and> path_length g_long p \<le> 10)"
proof
  assume "\<exists>p. path_between g_long 1 to p \<and> path_length g_long p \<le> 10"
  then obtain p where p: "p \<noteq> []" "hd p = 1" "path_length g_long p \<le> 10"
    by (auto simp: path_between_def dest: is_path_nonempty)
  have nonneg: "0 \<le> path_length g_long xs" for xs
    by (induction xs) (simp_all add: path_length_def g_long_def)
  from p(1,2) have "path_length g_long p = 100 + path_length g_long (tl p)"
    by (cases p) (simp_all add: path_length_def g_long_def)
  with nonneg [of "tl p"] p(3) show False by simp
qed

theorem FindShortestPath_optimal_counterexample:
  "path_between g_chain 1 2 [1, 2]
   \<and> path_length g_chain [1, 2] \<le> real (unat (4294967295 :: uint32_t)) + 10
   \<and> FindShortestPath g_chain 1 2 () 4294967295 [] = Inr (False, [])
   \<and> FindShortestPath g_frac 1 4 () 100 [] = Inr (True, [1, 2, 4])
   \<and> path_between g_frac 1 4 [1, 3, 4]
   \<and> path_length g_frac [1, 3, 4] < path_length g_frac [1, 2, 4]
   \<and> \<not> (\<exists>p. path_between g_long 1 2 p \<and> path_length g_long p \<le> real (unat (0 :: uint32_t)) + 10)
   \<and> FindShortestPath g_long 1 2 () 0 [] = Inr (True, [1, 2])"
proof -
  have 1: "path_between g_chain 1 2 [1, 2]"
    "path_length g_chain [1, 2] \<le> real (unat (4294967295 :: uint32_t)) + 10"
    by (simp_all add: path_between_def path_length_def g_chain_def)
  have 2: "path_between g_frac 1 4 [1, 3, 4]"
    "path_length g_frac [1, 3, 4] < path_length g_frac [1, 2, 4]"
    by (simp_all add: path_between_def path_length_def g_frac_def)
  have 3: "\<not> (\<exists>p. path_between g_long 1 2 p \<and> path_length g_long p \<le> real (unat (0 :: uint32_t)) + 10)"
    using g_long_paths [of 2] by simp
  from 1 2 3 run_wrapped_budget run_truncated run_long_source show ?thesis by blast
qed

lemma g_chain_hyps:
  "finite {1, 2, 3, 4, 5 :: int}"
  "\<forall>e\<in>{1, 2, 3, 4, 5 :: int}. set (GetOutgoingEdges g_chain (GetEndJunction g_chain e)) \<subseteq> {1, 2, 3, 4, 5}"
  "\<forall>e\<in>{1, 2, 3, 4, 5 :: int}. EdgeLength g_chain e \<in> \<nat>"
  "\<forall>e\<in>{1, 2, 3, 4, 5 :: int}. real (unat (50 :: uint32_t)) + 10 + EdgeLength g_chain e < 2 ^ 32"
  by (simp_all add: g_chain_def)

theorem FindShortestPath_optimal_witness:
  "path_between g_chain 2 4 [2, 3, 4]
   \<and> path_length g_chain (tl [2, 3, 4]) \<le> real (unat (50 :: uint32_t)) + 10
   \<and> (\<exists>P. FindShortestPath g_chain 2 4 () 50 [] = Inr (True, P)
          \<and> path_between g_chain 2 4 P
          \<and> path_length g_chain P \<le> path_length g_chain [2, 3, 4])
   \<and> FindShortestPath g_chain 3 7 () 50 [] = Inr (False, [])"
proof -
  have src: "(2::int) \<in> {1, 2, 3, 4, 5}" "(3::int) \<in> {1, 2, 3, 4, 5}" by simp_all
  have p: "path_between g_chain 2 4 [2, 3, 4]"
    "path_length g_chain (tl [2, 3, 4]) \<le> real (unat (50 :: uint32_t)) + 10"
    by (simp_all add: path_between_def path_length_def g_chain_def)
  then have ex: "\<exists>p. path_between g_chain 2 4 p
      \<and> path_length g_chain (tl p) \<le> real (unat (50 :: uint32_t)) + 10" by blast
  from FindShortestPath_optimal [OF g_chain_hyps(1) src(1) g_chain_hyps(2,3,4), of 4 "()"] ex
  obtain P where P: "FindShortestPath g_chain 2 4 () 50 [] = Inr (True, P)"
    "path_between g_chain 2 4 P"
    "\<forall>p. path_between g_chain 2 4 p \<longrightarrow> path_length g_chain P \<le> path_length g_chain p"
    by blast
  from P(3) p(1) have "path_length g_chain P \<le> path_length g_chain [2, 3, 4]" by blast
  with P(1,2) have 1: "\<exists>P. FindShortestPath g_chain 2 4 () 50 [] = Inr (True, P)
          \<and> path_between g_chain 2 4 P
          \<and> path_length g_chain P \<le> path_length g_chain [2, 3, 4]" by blast
  have no: "\<not> (\<exists>p. path_between g_chain 3 7 p
      \<and> path_length g_chain (tl p) \<le> real (unat (50 :: uint32_t)) + 10)"
  proof
    assume "\<exists>p. path_between g_chain 3 7 p
      \<and> path_length g_chain (tl p) \<le> real (unat (50 :: uint32_t)) + 10"
    then obtain p where q: "is_path g_chain p" "hd p = 3" "last p = 7" "p \<noteq> []"
      by (auto simp: path_between_def dest: is_path_nonempty)
    have "\<forall>e\<in>{1, 2, 3, 4, 5 :: int}. set (successors g_chain e) \<subseteq> {1, 2, 3, 4, 5}"
      using g_chain_hyps(2) by (simp add: successors_def)
    from path_stays [OF q(1) this] q(2) have "set p \<subseteq> {1, 2, 3, 4, 5}" by simp
    moreover from q(3,4) have "7 \<in> set p" by (metis last_in_set)
    ultimately show False by auto
  qed
  from FindShortestPath_optimal [OF g_chain_hyps(1) src(2) g_chain_hyps(2,3,4), of 7 "()"] no
  have 2: "FindShortestPath g_chain 3 7 () 50 [] = Inr (False, [])" by blast
  from p 1 2 show ?thesis by blast
qed

end
